theory Spec2Isabelle
  imports Main "HOL-Library.Multiset" "HOL-Library.Sublist"
begin

section \<open>Library routines with a byte-exact model\<close>

text \<open>
  Go strings are byte sequences; \<open>string\<close> (a list of 8-bit characters) holds them as they
  are. The routines of this section are the ones of the Go standard library that
  \<^verbatim>\<open>main.go\<close> calls and whose result is determined by the bytes of their arguments alone.
\<close>

definition is_digit :: "char \<Rightarrow> bool" where
  "is_digit c = (48 \<le> (of_char c :: nat) \<and> (of_char c :: nat) \<le> 57)"

definition digit_val :: "char \<Rightarrow> int" where
  "digit_val c = of_char c - 48"

definition dec_val :: "string \<Rightarrow> int" where
  "dec_val s = foldl (\<lambda>n c. 10 * n + digit_val c) 0 s"

text \<open>
  \<^verbatim>\<open>strconv.ParseUint(s, 10, 64)\<close>: the value and whether \<^verbatim>\<open>err == nil\<close>. A syntax error
  (empty string, any byte that is not a decimal digit) returns 0; a value that does not
  fit 64 bits returns the largest \<^verbatim>\<open>uint64\<close> together with the range error. The program
  compares these numbers and uses them as keys, and computes nothing from them: a
  \<^verbatim>\<open>uint64\<close> is an integer here, from 0 to \<open>2 ^ 64 - 1\<close> by this definition.
\<close>

type_synonym uint64 = int

definition ParseUint :: "string \<Rightarrow> uint64 \<times> bool" where
  "ParseUint s =
     (if s = [] \<or> \<not> list_all is_digit s then (0, False)
      else if dec_val s \<le> 18446744073709551615 then (dec_val s, True)
      else (18446744073709551615, False))"

text \<open>\<^verbatim>\<open>strings.LastIndex(s, sep)\<close>; \<open>None\<close> stands for the result -1.\<close>

definition LastIndex :: "string \<Rightarrow> string \<Rightarrow> nat option" where
  "LastIndex s sep =
     (if length s < length sep then None
      else (case filter (\<lambda>i. take (length sep) (drop i s) = sep)
                        (rev [0 ..< Suc (length s - length sep)]) of
              [] \<Rightarrow> None
            | i # _ \<Rightarrow> Some i))"

definition slash :: char where
  "slash = CHR ''/''"

definition dot :: char where
  "dot = CHR ''.''"

text \<open>The part of a string after its last occurrence of a byte (all of it when absent).\<close>

definition after_last :: "char \<Rightarrow> string \<Rightarrow> string" where
  "after_last c s = rev (takeWhile (\<lambda>x. x \<noteq> c) (rev s))"

text \<open>\<^verbatim>\<open>path.Base\<close>: trailing slashes stripped, then the last element.\<close>

definition path_Base :: "string \<Rightarrow> string" where
  "path_Base p =
     (if p = [] then ''.''
      else (let q = rev (dropWhile (\<lambda>x. x = slash) (rev p));
                b = after_last slash q
            in if b = [] then ''/'' else b))"

text \<open>\<^verbatim>\<open>path.Ext\<close>: the suffix from the last dot of the last element, empty without a dot.\<close>

definition path_Ext :: "string \<Rightarrow> string" where
  "path_Ext p =
     (let el = after_last slash p
      in if dot \<in> set el then dot # after_last dot el else [])"

text \<open>
  \<^verbatim>\<open>strings.Replace(s, old, "", -1)\<close>: every non-overlapping occurrence of \<open>old\<close>
  removed, scanning from the left; with an empty \<open>old\<close> the string is returned as it is
  (the library returns early when \<open>old\<close> equals the replacement). \<open>skip\<close> counts the
  bytes of a matched occurrence still to be dropped.
\<close>

fun delete_from :: "string \<Rightarrow> nat \<Rightarrow> string \<Rightarrow> string" where
  "delete_from old skip [] = []"
| "delete_from old skip (c # cs) =
     (if 0 < skip then delete_from old (skip - 1) cs
      else if take (length old) (c # cs) = old then delete_from old (length old - 1) cs
      else c # delete_from old 0 cs)"

definition Replace_by_empty :: "string \<Rightarrow> string \<Rightarrow> string" where
  "Replace_by_empty s old = (if old = [] then s else delete_from old 0 s)"

text \<open>\<^verbatim>\<open>strings.Join\<close>.\<close>

fun strings_Join :: "string list \<Rightarrow> string \<Rightarrow> string" where
  "strings_Join [] sep = []"
| "strings_Join [x] sep = x"
| "strings_Join (x # y # ys) sep = x @ sep @ strings_Join (y # ys) sep"

fun split_on :: "char \<Rightarrow> string \<Rightarrow> string list" where
  "split_on c [] = [[]]"
| "split_on c (x # xs) =
     (if x = c then [] # split_on c xs
      else (case split_on c xs of
              [] \<Rightarrow> [[x]]
            | w # ws \<Rightarrow> (x # w) # ws))"

text \<open>
  \<^verbatim>\<open>path.Clean\<close>, element by element. The stack holds the elements written so far,
  last first. An empty element and \<open>.\<close> are skipped; \<open>..\<close> removes the last real element,
  is dropped at the root, and is kept in front of a relative path.
\<close>

definition clean_step :: "bool \<Rightarrow> string list \<Rightarrow> string \<Rightarrow> string list" where
  "clean_step rooted stack el =
     (if el = [] \<or> el = ''.'' then stack
      else if el = ''..'' then
        (case stack of
           [] \<Rightarrow> if rooted then [] else [''..'']
         | t # ts \<Rightarrow> if t \<noteq> ''..'' then ts else if rooted then stack else ''..'' # stack)
      else el # stack)"

definition path_Clean :: "string \<Rightarrow> string" where
  "path_Clean p =
     (if p = [] then ''.''
      else (let rooted = (hd p = slash);
                body = strings_Join (rev (foldl (clean_step rooted) [] (split_on slash p))) ''/''
            in if rooted then slash # body else if body = [] then ''.'' else body))"

text \<open>
  \<^verbatim>\<open>path.Join\<close> of two elements, which is also \<^verbatim>\<open>filepath.Join\<close> where the separator
  is the slash: empty elements are ignored, the rest joined by a slash and cleaned.
\<close>

definition path_Join :: "string \<Rightarrow> string \<Rightarrow> string" where
  "path_Join a b =
     (if a = [] \<and> b = [] then []
      else if a = [] then path_Clean b
      else if b = [] then path_Clean a
      else path_Clean (a @ ''/'' @ b))"

definition digit_char :: "nat \<Rightarrow> char" where
  "digit_char d = ''0123456789'' ! d"

fun show_nat :: "nat \<Rightarrow> string" where
  "show_nat n =
     (if n < 10 then [digit_char n]
      else show_nat (n div 10) @ [digit_char (n mod 10)])"

definition pad2 :: "nat \<Rightarrow> string" where
  "pad2 n = (if n < 10 then CHR ''0'' # show_nat n else show_nat n)"

definition pad4 :: "nat \<Rightarrow> string" where
  "pad4 n = replicate (4 - length (show_nat n)) (CHR ''0'') @ show_nat n"


definition nl :: string where
  "nl = [CHR 0x0A]"

definition dq :: string where
  "dq = [CHR 0x22]"

section \<open>Timestamps\<close>

text \<open>
  \<^verbatim>\<open>type Date time.Time\<close>. A \<^verbatim>\<open>time.Time\<close> is an instant together with the zone it is
  shown in; the record keeps the wall-clock reading in that zone and the zone's offset in
  seconds east of UTC. The feed carries milliseconds.
\<close>

record Date =
  dYear :: nat
  dMonth :: nat
  dDay :: nat
  dHour :: nat
  dMinute :: nat
  dSecond :: nat
  dMilli :: nat
  dOffset :: int

text \<open>Days from 1970-01-01 to a date of the proleptic Gregorian calendar.\<close>

definition days_from_civil :: "nat \<Rightarrow> nat \<Rightarrow> nat \<Rightarrow> int" where
  "days_from_civil y m d =
     (let y' = (if m \<le> 2 then int y - 1 else int y);
          era = y' div 400;
          yoe = y' - era * 400;
          mp = (if 2 < m then int m - 3 else int m + 9);
          doy = (153 * mp + 2) div 5 + int d - 1;
          doe = yoe * 365 + yoe div 4 - yoe div 100 + doy
      in era * 146097 + doe - 719468)"

text \<open>The instant of a timestamp, in milliseconds since the epoch, UTC.\<close>

definition instant :: "Date \<Rightarrow> int" where
  "instant t =
     ((days_from_civil (dYear t) (dMonth t) (dDay t) * 86400
        + int (dHour t) * 3600 + int (dMinute t) * 60 + int (dSecond t) - dOffset t) * 1000
      + int (dMilli t))"

text \<open>\<^verbatim>\<open>time.Time.Before\<close> compares instants.\<close>

definition Before :: "Date \<Rightarrow> Date \<Rightarrow> bool" where
  "Before t u = (instant t < instant u)"

text \<open>
  \<^verbatim>\<open>func (d Date) String() string\<close>: \<^verbatim>\<open>Format("2006-01-02T15:04:05Z")\<close>. In a layout a
  \<^verbatim>\<open>Z\<close> that is not followed by \<^verbatim>\<open>07\<close> is no zone element: it is copied as the letter it
  is. \<^verbatim>\<open>Format\<close> prints the reading of the clock in the zone of the value.
\<close>

definition Date_String :: "Date \<Rightarrow> string" where
  "Date_String t =
     pad4 (dYear t) @ ''-'' @ pad2 (dMonth t) @ ''-'' @ pad2 (dDay t) @ ''T''
       @ pad2 (dHour t) @ '':'' @ pad2 (dMinute t) @ '':'' @ pad2 (dSecond t) @ ''Z''"

definition is_leap :: "nat \<Rightarrow> bool" where
  "is_leap y = (y mod 4 = 0 \<and> (y mod 100 \<noteq> 0 \<or> y mod 400 = 0))"

definition daysIn :: "nat \<Rightarrow> nat \<Rightarrow> nat" where
  "daysIn m y =
     (if m = 2 then (if is_leap y then 29 else 28)
      else if m = 4 \<or> m = 6 \<or> m = 9 \<or> m = 11 then 30 else 31)"

text \<open>
  \<^verbatim>\<open>func (d *Date) UnmarshalXML\<close>: \<^verbatim>\<open>time.Parse("2006-01-02T15:04:05.000-07:00", v)\<close>,
  with \<open>None\<close> for the error. The library reads the fields one after the other: year,
  month, day, minute and second of full width; an hour of one or two digits (one when
  the byte after its first digit is no digit); the fraction after a dot or a comma, three
  bytes read as a number, which may begin with a sign (\<^verbatim>\<open>+12\<close> is 12, \<^verbatim>\<open>-00\<close> is 0, any
  other negative number is out of range); the zone offset with a sign, up to 24 hours
  and up to 60 minutes. The text must end there. The model puts a zero before an hour of
  one digit and reads the fields at their places.
\<close>

definition num_at :: "string \<Rightarrow> nat \<Rightarrow> nat \<Rightarrow> nat option" where
  "num_at s i n =
     (let f = take n (drop i s)
      in if length f = n \<and> list_all is_digit f then Some (nat (dec_val f)) else None)"

definition lit_at :: "string \<Rightarrow> nat \<Rightarrow> char \<Rightarrow> bool" where
  "lit_at s i c = (i < length s \<and> s ! i = c)"

definition digit_at :: "string \<Rightarrow> nat \<Rightarrow> bool" where
  "digit_at s i = (i < length s \<and> is_digit (s ! i))"

definition frac_at :: "string \<Rightarrow> nat \<Rightarrow> nat option" where
  "frac_at s i =
     (if lit_at s i (CHR ''+'') then num_at s (i + 1) 2
      else if lit_at s i (CHR ''-'') then (if num_at s (i + 1) 2 = Some 0 then Some 0 else None)
      else num_at s i 3)"

definition UnmarshalXML_Date :: "string \<Rightarrow> Date option" where
  "UnmarshalXML_Date v0 =
     (let v = (if digit_at v0 11 \<and> \<not> digit_at v0 12 then take 11 v0 @ ''0'' @ drop 11 v0 else v0)
      in case (num_at v 0 4, num_at v 5 2, num_at v 8 2, num_at v 11 2, num_at v 14 2,
               num_at v 17 2, frac_at v 20, num_at v 24 2, num_at v 27 2) of
        (Some y, Some mo, Some d, Some h, Some mi, Some sec, Some ms, Some zh, Some zm) \<Rightarrow>
          if length v = 29 \<and> lit_at v 4 (CHR ''-'') \<and> lit_at v 7 (CHR ''-'')
             \<and> lit_at v 10 (CHR ''T'') \<and> lit_at v 13 (CHR '':'') \<and> lit_at v 16 (CHR '':'')
             \<and> (lit_at v 19 (CHR ''.'') \<or> lit_at v 19 (CHR '',''))
             \<and> (lit_at v 23 (CHR ''+'') \<or> lit_at v 23 (CHR ''-''))
             \<and> lit_at v 26 (CHR '':'')
             \<and> 1 \<le> mo \<and> mo \<le> 12 \<and> 1 \<le> d \<and> d \<le> daysIn mo y
             \<and> h < 24 \<and> mi < 60 \<and> sec < 60 \<and> zh \<le> 24 \<and> zm \<le> 60
          then Some \<lparr>dYear = y, dMonth = mo, dDay = d, dHour = h, dMinute = mi,
                      dSecond = sec, dMilli = ms,
                      dOffset = (if lit_at v 23 (CHR ''-'') then - 1 else 1)
                                  * ((int zh * 60 + int zm) * 60)\<rparr>
          else None
      | _ \<Rightarrow> None)"

section \<open>The record model\<close>

type_synonym Draft = bool

text \<open>\<^verbatim>\<open>func (d *Draft) UnmarshalXML\<close>.\<close>

definition UnmarshalXML_Draft :: "string \<Rightarrow> Draft option" where
  "UnmarshalXML_Draft v =
     (if v = ''yes'' then Some True else if v = ''no'' then Some False else None)"

record Reply =
  Rel :: string
  Link :: string
  Source :: string

record Image =
  Width :: int
  Height :: int
  ImageSource :: string

record Author =
  AuthorName :: string
  Uri :: string
  AuthorImage :: Image

record Tag =
  Name :: string
  Scheme :: string

type_synonym Tags = "Tag list"

record Entry =
  ID :: string
  Published :: Date
  Updated :: Date
  Draft :: Draft
  Title :: string
  Content :: string
  Tags :: Tags
  EntryAuthor :: Author
  EntrySource :: Reply
  Links :: "Reply list"
  ReplyTo :: uint64
  Children :: "nat list"
  Comments :: "uint64 list"
  Slug :: string
  Extra :: string

section \<open>Library routines taken as parameters\<close>

text \<open>
  What the remaining library calls return depends on the Unicode tables, or is left open
  by the library's documentation (\<^verbatim>\<open>sort.Sort\<close> promises an ascending order and no
  stability). They are parameters of the model:
  \<^item> \<open>sortSort less xs\<close>: the slice after \<^verbatim>\<open>sort.Sort\<close>, for a slice \<open>xs\<close> and the
    comparison \<open>less\<close> of two of its elements;
  \<^item> \<open>ToLower\<close>, \<open>TrimSpace\<close>: \<^verbatim>\<open>strings.ToLower\<close>, \<^verbatim>\<open>strings.TrimSpace\<close>;
  \<^item> \<open>runes\<close>, \<open>of_runes\<close>: the conversions \<^verbatim>\<open>[]rune(s)\<close> and \<^verbatim>\<open>string(target)\<close>;
  \<^item> \<open>IsLetter\<close>, \<open>IsDigit\<close>: \<^verbatim>\<open>unicode.IsLetter\<close>, \<^verbatim>\<open>unicode.IsDigit\<close>;
  \<^item> \<open>quote\<close>: \<^verbatim>\<open>fmt.Sprintf("%q", s)\<close>;
  \<^item> \<open>can_open\<close>: whether \<^verbatim>\<open>os.OpenFile\<close> succeeds on a path.
\<close>

record golib =
  sortSort :: "(nat \<Rightarrow> nat \<Rightarrow> bool) \<Rightarrow> nat list \<Rightarrow> nat list"
  ToLower :: "string \<Rightarrow> string"
  TrimSpace :: "string \<Rightarrow> string"
  runes :: "string \<Rightarrow> nat list"
  of_runes :: "nat list \<Rightarrow> string"
  IsLetter :: "nat \<Rightarrow> bool"
  IsDigit :: "nat \<Rightarrow> bool"
  quote :: "string \<Rightarrow> string"
  can_open :: "string \<Rightarrow> bool"


section \<open>Rendering\<close>

definition blogger_ns :: string where
  "blogger_ns = ''http://www.blogger.com/atom/ns#''"

definition kind_scheme :: string where
  "kind_scheme = ''http://schemas.google.com/g/2005#kind''"

definition kind_comment :: string where
  "kind_comment = ''http://schemas.google.com/blogger/2008/kind#comment''"

definition kind_post :: string where
  "kind_post = ''http://schemas.google.com/blogger/2008/kind#post''"

text \<open>\<^verbatim>\<open>func (t Tags) TomlString() string\<close>.\<close>

definition TomlString :: "golib \<Rightarrow> Tags \<Rightarrow> string" where
  "TomlString L ts =
     strings_Join (map (\<lambda>t. quote L (Name t)) (filter (\<lambda>t. Scheme t = blogger_ns) ts)) '', ''"

text \<open>
  \<^verbatim>\<open>t.Execute(f, e)\<close>, where \<^verbatim>\<open>t\<close> is parsed from \<^verbatim>\<open>yamlTempl\<close>: the text written for
  an entry. \<^verbatim>\<open>text/template\<close> inserts field values as they are; \<^verbatim>\<open>with\<close> and \<^verbatim>\<open>if\<close>
  skip an empty string and \<^verbatim>\<open>false\<close>. The frontmatter is the text up to the closing
  line of dashes, the content follows after an empty line. The other template of the source, \<^verbatim>\<open>tomlTempl\<close>
  (the one with the \<^verbatim>\<open>slug\<close> and \<^verbatim>\<open>comments\<close> lines), is never parsed nor executed.
\<close>

definition frontmatter :: "golib \<Rightarrow> Entry \<Rightarrow> string" where
  "frontmatter L e =
     ''---'' @ nl
     @ ''title: '' @ dq @ Title e @ dq @ nl
     @ ''date: '' @ Date_String (Published e) @ nl
     @ ''updated: '' @ Date_String (Updated e)
     @ (if TomlString L (Tags e) \<noteq> [] then nl @ ''tags: ['' @ TomlString L (Tags e) @ '']'' else [])
     @ (if Draft e then nl @ ''draft: true'' else [])
     @ nl @ ''blogimport: true ''
     @ (if Extra e \<noteq> [] then nl @ Extra e else [])
     @ nl @ ''author: '' @ dq @ AuthorName (EntryAuthor e) @ dq @ nl
     @ ''---'' @ nl"

definition yamlTempl :: "golib \<Rightarrow> Entry \<Rightarrow> string" where
  "yamlTempl L e = frontmatter L e @ nl @ Content e @ nl"

text \<open>\<^verbatim>\<open>func unicodeSanitize(s string) string\<close>.\<close>

definition unicodeSanitize :: "golib \<Rightarrow> string \<Rightarrow> string" where
  "unicodeSanitize L s =
     of_runes L (filter (\<lambda>r. IsLetter L r \<or> IsDigit L r \<or> r = 46 \<or> r = 95 \<or> r = 45)
                        (runes L s))"

text \<open>\<^verbatim>\<open>func makePath(d Date, s string) string\<close>.\<close>

definition makePath :: "golib \<Rightarrow> Date \<Rightarrow> string \<Rightarrow> string" where
  "makePath L d s =
     take 10 (Date_String d) @ ''-''
       @ unicodeSanitize L
           (ToLower L (map (\<lambda>c. if c = CHR '' '' then CHR ''-'' else c) (TrimSpace L s)))"

text \<open>
  The files of a run, in the order they are written: path and text. A later write to the
  same path replaces the earlier text (\<^verbatim>\<open>O_TRUNC\<close>).
\<close>

type_synonym file_list = "(string \<times> string) list"

text \<open>
  \<^verbatim>\<open>func writeEntry(e Entry, dir string) error\<close>: the file written, or \<open>None\<close> for the
  error of \<^verbatim>\<open>os.OpenFile\<close>.
\<close>

definition writeEntry :: "golib \<Rightarrow> Entry \<Rightarrow> string \<Rightarrow> (string \<times> string) option" where
  "writeEntry L e dir =
     (let slug = makePath L (Published e) (Title e);
          filename = path_Join dir (slug @ ''.md'')
      in if can_open L filename then Some (filename, yamlTempl L e) else None)"

text \<open>\<^verbatim>\<open>func writeComment(e Entry, dir string) error\<close>.\<close>

definition writeComment :: "golib \<Rightarrow> Entry \<Rightarrow> string \<Rightarrow> (string \<times> string) option" where
  "writeComment L e dir =
     (let e' = e\<lparr>Title := filter (\<lambda>c. c \<noteq> CHR 0x0D) (filter (\<lambda>c. c \<noteq> CHR 0x0A) (Title e))\<rparr>;
          filename = path_Join (path_Join dir ''comments'') (''c'' @ ID e @ ''.toml'')
      in if can_open L filename then Some (filename, yamlTempl L e') else None)"

section \<open>Flattening the comment tree\<close>

text \<open>How a run ends when it does not run to its end.\<close>

datatype abort =
  FatalNoEntries
| FatalWrite string
| PanicNotExist nat
| PanicIndex

text \<open>\<^verbatim>\<open>func (s EntrySet) Less(i, j int) bool\<close>, on the two elements of the slice.\<close>

definition Less :: "Entry list \<Rightarrow> nat \<Rightarrow> nat \<Rightarrow> bool" where
  "Less es a b = Before (Published (es ! a)) (Published (es ! b))"

text \<open>
  The first statement of \<^verbatim>\<open>treeSort\<close>: \<^verbatim>\<open>sort.Sort(EntrySet(exp.Entries[i].Children))\<close>
  sorts the child list of entry \<open>i\<close> where it is stored. Reading entry \<open>i\<close> panics when \<open>i\<close>
  is no index of the table; so does \<^verbatim>\<open>Less\<close> on a child that is no index, and sorting
  two or more elements compares every one of them.
\<close>

definition sort_children :: "golib \<Rightarrow> Entry list \<Rightarrow> nat \<Rightarrow> abort + Entry list" where
  "sort_children L es i =
     (if length es \<le> i then Inl PanicIndex
      else if 2 \<le> length (Children (es ! i)) \<and> list_ex (\<lambda>c. length es \<le> c) (Children (es ! i))
      then Inl PanicIndex
      else Inr (es[i := (es ! i)\<lparr>Children := sortSort L (Less es) (Children (es ! i))\<rparr>]))"

text \<open>
  The loop of \<^verbatim>\<open>treeSort\<close> over the sorted children \<open>vs\<close>: each child is emitted and
  followed by what \<^verbatim>\<open>treeSort\<close> returns for it, which is the sort of its own children and
  this loop over them. The table is passed along, since every call sorts in place. A
  recursion that never comes back is the value \<open>None\<close>.
\<close>

partial_function (option) treeSort_loop ::
  "golib \<Rightarrow> Entry list \<Rightarrow> nat list \<Rightarrow> (abort + Entry list \<times> nat list) option" where
  "treeSort_loop L es vs =
     (case vs of
        [] \<Rightarrow> Some (Inr (es, []))
      | v # rest \<Rightarrow>
          (case sort_children L es v of
             Inl a \<Rightarrow> Some (Inl a)
           | Inr es1 \<Rightarrow>
               Option.bind (treeSort_loop L es1 (Children (es1 ! v)))
                 (\<lambda>r1. case r1 of
                    Inl a \<Rightarrow> Some (Inl a)
                  | Inr (es2, sub) \<Rightarrow>
                      Option.bind (treeSort_loop L es2 rest)
                        (\<lambda>r2. case r2 of
                           Inl a \<Rightarrow> Some (Inl a)
                         | Inr (es3, later) \<Rightarrow> Some (Inr (es3, v # sub @ later))))))"

text \<open>\<^verbatim>\<open>func treeSort(i int) (list []int)\<close>.\<close>

definition treeSort :: "golib \<Rightarrow> Entry list \<Rightarrow> nat \<Rightarrow> (abort + Entry list \<times> nat list) option" where
  "treeSort L es i =
     (case sort_children L es i of
        Inl a \<Rightarrow> Some (Inl a)
      | Inr es1 \<Rightarrow> treeSort_loop L es1 (Children (es1 ! i)))"


section \<open>The run\<close>

text \<open>
  The first loop of \<^verbatim>\<open>main\<close> looks at the first tag of the kind scheme only (the
  \<^verbatim>\<open>break\<close> after the \<^verbatim>\<open>switch\<close> leaves the loop over the tags): the comment kind falls
  through to the post kind, whose case is empty; any other name sets \<^verbatim>\<open>isTemplate\<close>.
\<close>

fun isTemplate :: "Tags \<Rightarrow> bool" where
  "isTemplate [] = False"
| "isTemplate (t # ts) =
     (if Scheme t = kind_scheme then Name t \<noteq> kind_comment \<and> Name t \<noteq> kind_post
      else isTemplate ts)"

text \<open>The body of the loop over the links of an entry.\<close>

definition scan_link :: "golib \<Rightarrow> Entry \<Rightarrow> Reply \<Rightarrow> Entry" where
  "scan_link L e link =
     (let r = ToLower L (Rel link)
      in if r = ''related'' then e\<lparr>ReplyTo := fst (ParseUint (path_Base (Link link)))\<rparr>
         else if r = ''alternate'' then e
         else if r = ''replies''
         then e\<lparr>Slug := Replace_by_empty (path_Base (Link link)) (path_Ext (Link link))\<rparr>
         else e)"

type_synonym postmap = "uint64 \<rightharpoonup> nat"

text \<open>
  The body of the first loop for the entry \<open>e\<close> at index \<open>k\<close>: the entry as it is left in
  the table, the lookup table, and the lines printed.
\<close>

definition resolve_entry ::
  "golib \<Rightarrow> nat \<Rightarrow> Entry \<Rightarrow> postmap \<Rightarrow> string list \<Rightarrow> Entry \<times> postmap \<times> string list" where
  "resolve_entry L k e pm out =
     (if isTemplate (Tags e) then (e, pm, out)
      else
        (let (e1, pm1, out1) =
               (case LastIndex (ID e) ''post-'' of
                  None \<Rightarrow> (e, pm, out)
                | Some index \<Rightarrow>
                    (let e' = e\<lparr>ID := drop (index + 5) (ID e)\<rparr>
                     in if snd (ParseUint (ID e'))
                        then (e', pm(fst (ParseUint (ID e')) \<mapsto> k), out)
                        else (e', pm, out @ [''Can't parse '' @ ID e'])))
         in (foldl (scan_link L) e1 (Links e1), pm1, out1)))"

fun resolve_loop ::
  "golib \<Rightarrow> nat \<Rightarrow> Entry list \<Rightarrow> postmap \<Rightarrow> string list \<Rightarrow> Entry list \<times> postmap \<times> string list" where
  "resolve_loop L k [] pm out = ([], pm, out)"
| "resolve_loop L k (e # es) pm out =
     (case resolve_entry L k e pm out of
        (e', pm', out') \<Rightarrow>
          (case resolve_loop L (Suc k) es pm' out' of
             (es', pm'', out'') \<Rightarrow> (e' # es', pm'', out'')))"

text \<open>What the later loops work on: the table, the files written, the lines printed.\<close>

record world =
  entries :: "Entry list"
  files :: file_list
  stdout :: "string list"

definition is_kind :: "string \<Rightarrow> Tags \<Rightarrow> bool" where
  "is_kind nm ts = list_ex (\<lambda>t. Name t = nm \<and> Scheme t = kind_scheme) ts"

text \<open>The parent identifier of a comment: the \<^verbatim>\<open>related\<close> link, else the reply source.\<close>

definition parent_of :: "Entry \<Rightarrow> uint64" where
  "parent_of e =
     (if ReplyTo e \<noteq> 0 then ReplyTo e
      else fst (ParseUint (path_Base (Source (EntrySource e)))))"

text \<open>
  The body of the second loop (build the comment hierarchy) for index \<open>k\<close>. \<open>entry\<close> is the
  copy the \<^verbatim>\<open>range\<close> clause makes of the entry. Every path through the body of the loop
  over the tags leaves that loop at the first comment tag, so the body runs once if the
  entry has such a tag and not at all otherwise. The error \<^verbatim>\<open>writeComment\<close> returns is
  dropped by the caller.
\<close>

definition build_step ::
  "golib \<Rightarrow> string \<Rightarrow> postmap \<Rightarrow> nat \<Rightarrow> world \<Rightarrow> abort \<times> world + world" where
  "build_step L dir pm k w =
     (let entry = entries w ! k
      in if \<not> is_kind kind_comment (Tags entry) then Inr w
         else
           (let parent = parent_of entry
            in if parent = 0
               then Inr (w\<lparr>stdout := stdout w @ [''Skipping deleted comment '' @ ID entry]\<rparr>)
               else
                 (case pm parent of
                    None \<Rightarrow> Inl (PanicNotExist k, w)
                  | Some i \<Rightarrow>
                      if length (entries w) \<le> i then Inl (PanicIndex, w)
                      else
                        (let w1 = w\<lparr>entries := (entries w)
                                     [i := (entries w ! i)
                                        \<lparr>Children := Children (entries w ! i) @ [k]\<rparr>]\<rparr>
                         in Inr (case writeComment L entry dir of
                                   None \<Rightarrow> w1
                                 | Some f \<Rightarrow> w1\<lparr>files := files w1 @ [f]\<rparr>)))))"

fun build_loop ::
  "golib \<Rightarrow> string \<Rightarrow> postmap \<Rightarrow> nat list \<Rightarrow> world \<Rightarrow> abort \<times> world + world" where
  "build_loop L dir pm [] w = Inr w"
| "build_loop L dir pm (k # ks) w =
     (case build_step L dir pm k w of
        Inl a \<Rightarrow> Inl a
      | Inr w' \<Rightarrow> build_loop L dir pm ks w')"

text \<open>The identifiers of the flattened children whose ID is a decimal number.\<close>

definition comment_ids :: "Entry list \<Rightarrow> nat list \<Rightarrow> uint64 list" where
  "comment_ids es vs =
     map (\<lambda>v. fst (ParseUint (ID (es ! v)))) (filter (\<lambda>v. snd (ParseUint (ID (es ! v)))) vs)"

text \<open>
  The body of the third loop for index \<open>k\<close>, with the counters of published posts and of
  drafts. The flattened children, the comment identifiers and the extra metadata are set
  in the copy \<open>entry\<close> only; the table keeps the in-place sorts of \<^verbatim>\<open>treeSort\<close>.
\<close>

definition post_step ::
  "golib \<Rightarrow> string \<Rightarrow> string \<Rightarrow> nat \<Rightarrow> world \<times> nat \<times> nat
     \<Rightarrow> (abort \<times> world + world \<times> nat \<times> nat) option" where
  "post_step L dir extra k st =
     (case st of (w, cnt, drafts) \<Rightarrow>
        (let entry = entries w ! k
         in if \<not> is_kind kind_post (Tags entry) then Some (Inr (w, cnt, drafts))
            else
              (case treeSort L (entries w) k of
                 None \<Rightarrow> None
               | Some (Inl a) \<Rightarrow> Some (Inl (a, w))
               | Some (Inr (es', flat)) \<Rightarrow>
                   (let entry' = entry\<lparr>Children := flat,
                                        Comments := Comments entry @ comment_ids es' flat,
                                        Extra := extra\<rparr>;
                        w1 = w\<lparr>entries := es'\<rparr>
                    in case writeEntry L entry' dir of
                         None \<Rightarrow> Some (Inl (FatalWrite (Title entry'), w1))
                       | Some f \<Rightarrow>
                           Some (Inr (w1\<lparr>files := files w1 @ [f]\<rparr>,
                                      if Draft entry' then cnt else Suc cnt,
                                      if Draft entry' then Suc drafts else drafts))))))"

fun post_loop ::
  "golib \<Rightarrow> string \<Rightarrow> string \<Rightarrow> nat list \<Rightarrow> world \<times> nat \<times> nat
     \<Rightarrow> (abort \<times> world + world \<times> nat \<times> nat) option" where
  "post_loop L dir extra [] st = Some (Inr st)"
| "post_loop L dir extra (k # ks) st =
     (case post_step L dir extra k st of
        None \<Rightarrow> None
      | Some (Inl a) \<Rightarrow> Some (Inl a)
      | Some (Inr st') \<Rightarrow> post_loop L dir extra ks st')"

text \<open>
  \<^verbatim>\<open>func main()\<close> from the check of the parsed feed on: \<open>dir\<close> is the target directory,
  \<open>extra\<close> the value of the flag \<^verbatim>\<open>-extra\<close> (the empty string when the flag is not given)
  and \<open>es\<close> the entries of the feed as \<^verbatim>\<open>xml.Unmarshal\<close> leaves them. The result is how the
  run ends (an abort, or the two counters of the summary) with the files and the output
  it leaves; \<open>None\<close> is a run in which \<^verbatim>\<open>treeSort\<close> recurses without end.
\<close>

definition run ::
  "golib \<Rightarrow> string \<Rightarrow> string \<Rightarrow> Entry list \<Rightarrow> (abort \<times> world + world \<times> nat \<times> nat) option" where
  "run L dir extra es =
     (if length es < 1 then Some (Inl (FatalNoEntries, \<lparr>entries = es, files = [], stdout = []\<rparr>))
      else
        (case resolve_loop L 0 es Map.empty [] of
           (es1, pm, out) \<Rightarrow>
             (case build_loop L dir pm [0 ..< length es1] \<lparr>entries = es1, files = [], stdout = out\<rparr> of
                Inl a \<Rightarrow> Some (Inl a)
              | Inr w \<Rightarrow> post_loop L dir extra [0 ..< length (entries w)] (w, 0, 0))))"

text \<open>The lookup table the first loop of a run builds.\<close>

definition postmap_of :: "golib \<Rightarrow> Entry list \<Rightarrow> postmap" where
  "postmap_of L es = fst (snd (resolve_loop L 0 es Map.empty []))"

definition resolved :: "golib \<Rightarrow> Entry list \<Rightarrow> Entry list" where
  "resolved L es = fst (resolve_loop L 0 es Map.empty [])"


section \<open>Instances of the library parameters\<close>

text \<open>
  \<^verbatim>\<open>insertionSort\<close> of the library's \<^verbatim>\<open>sort\<close> package: each element in turn is swapped
  towards the front while it is less than its left neighbour. \<open>bubble\<close> works on the sorted
  front part, last element first. From release 1.19 on \<^verbatim>\<open>sort.Sort\<close> is this insertion
  sort for a slice of at most 12 elements.
\<close>

fun bubble :: "('a \<Rightarrow> 'a \<Rightarrow> bool) \<Rightarrow> 'a \<Rightarrow> 'a list \<Rightarrow> 'a list" where
  "bubble lt x [] = [x]"
| "bubble lt x (y # ys) = (if lt x y then y # bubble lt x ys else x # y # ys)"

definition insertionSort :: "('a \<Rightarrow> 'a \<Rightarrow> bool) \<Rightarrow> 'a list \<Rightarrow> 'a list" where
  "insertionSort lt xs = rev (foldl (\<lambda>front x. bubble lt x front) [] xs)"

text \<open>
  Up to release 1.18 \<^verbatim>\<open>sort.Sort\<close> handles a slice of at most 12 elements by one pass
  of Shell sort with gap 6 (for \<open>i\<close> from 6 on, elements \<open>i\<close> and \<open>i - 6\<close> are swapped when
  the later one is less) and the insertion sort after it.
\<close>

definition shell_pass :: "('a \<Rightarrow> 'a \<Rightarrow> bool) \<Rightarrow> 'a list \<Rightarrow> 'a list" where
  "shell_pass lt xs =
     foldl (\<lambda>ys i. if lt (ys ! i) (ys ! (i - 6)) then ys[i := ys ! (i - 6), i - 6 := ys ! i] else ys)
       xs [6 ..< length xs]"

definition shellInsertionSort :: "('a \<Rightarrow> 'a \<Rightarrow> bool) \<Rightarrow> 'a list \<Rightarrow> 'a list" where
  "shellInsertionSort lt xs = insertionSort lt (shell_pass lt xs)"

text \<open>
  The parameters on ASCII text, where they need no table: the letters A to Z are
  lowered, white space is the six ASCII space characters, a rune is a byte, and \<^verbatim>\<open>%q\<close>
  puts a backslash before a double quote and before a backslash. On strings of printable
  ASCII characters the library returns these values. Every file can be opened.
\<close>

definition ascii_lower :: "char \<Rightarrow> char" where
  "ascii_lower c =
     (if 65 \<le> (of_char c :: nat) \<and> (of_char c :: nat) \<le> 90 then char_of (of_char c + 32 :: nat) else c)"

definition ascii_space :: "char \<Rightarrow> bool" where
  "ascii_space c = ((of_char c :: nat) = 32 \<or> (9 \<le> (of_char c :: nat) \<and> (of_char c :: nat) \<le> 13))"

definition ascii_letter :: "nat \<Rightarrow> bool" where
  "ascii_letter r = ((65 \<le> r \<and> r \<le> 90) \<or> (97 \<le> r \<and> r \<le> 122))"

definition ascii_quote :: "string \<Rightarrow> string" where
  "ascii_quote s =
     dq @ concat (map (\<lambda>c. if c = CHR 0x22 \<or> c = CHR 0x5C then [CHR 0x5C, c] else [c]) s) @ dq"

definition ascii_lib :: golib where
  "ascii_lib =
     \<lparr>sortSort = insertionSort,
      ToLower = map ascii_lower,
      TrimSpace = (\<lambda>s. rev (dropWhile ascii_space (rev (dropWhile ascii_space s)))),
      runes = map of_char,
      of_runes = map char_of,
      IsLetter = ascii_letter,
      IsDigit = (\<lambda>r. 48 \<le> r \<and> r \<le> 57),
      quote = ascii_quote,
      can_open = (\<lambda>p. True)\<rparr>"

definition go118_lib :: golib where
  "go118_lib = ascii_lib\<lparr>sortSort := shellInsertionSort\<rparr>"

section \<open>Feeds used as examples\<close>

definition zero_Date :: Date where
  "zero_Date = \<lparr>dYear = 1, dMonth = 1, dDay = 1, dHour = 0, dMinute = 0, dSecond = 0,
                 dMilli = 0, dOffset = 0\<rparr>"

text \<open>The zero value of \<^verbatim>\<open>Entry\<close>: what \<^verbatim>\<open>xml.Unmarshal\<close> starts an entry from.\<close>

definition zero_Entry :: Entry where
  "zero_Entry =
     \<lparr>ID = [], Published = zero_Date, Updated = zero_Date, Draft = False, Title = [],
      Content = [], Tags = [],
      EntryAuthor = \<lparr>AuthorName = [], Uri = [],
                      AuthorImage = \<lparr>Width = 0, Height = 0, ImageSource = []\<rparr>\<rparr>,
      EntrySource = \<lparr>Rel = [], Link = [], Source = []\<rparr>,
      Links = [], ReplyTo = 0, Children = [], Comments = [], Slug = [], Extra = []\<rparr>"

definition at_time :: "string \<Rightarrow> Date" where
  "at_time v = (case UnmarshalXML_Date v of Some d \<Rightarrow> d | None \<Rightarrow> zero_Date)"

definition post_tag :: Tag where
  "post_tag = \<lparr>Name = kind_post, Scheme = kind_scheme\<rparr>"

definition comment_tag :: Tag where
  "comment_tag = \<lparr>Name = kind_comment, Scheme = kind_scheme\<rparr>"

definition related_to :: "string \<Rightarrow> Reply" where
  "related_to href = \<lparr>Rel = ''related'', Link = href, Source = []\<rparr>"

text \<open>The post of the scenarios of the specification.\<close>

definition post42 :: Entry where
  "post42 = zero_Entry
     \<lparr>ID := ''tag:blogger.com,1999:blog-1.post-42'',
      Published := at_time ''2020-01-01T10:00:00.000-08:00'',
      Updated := at_time ''2020-01-01T10:00:00.000-08:00'',
      Title := ''Hello World'', Content := ''<p>text</p>'', Tags := [post_tag]\<rparr>"

text \<open>A comment on it: its \<^verbatim>\<open>related\<close> link ends in \<^verbatim>\<open>/42\<close>, its ID in \<^verbatim>\<open>.c5\<close>.\<close>

definition comment_c5 :: Entry where
  "comment_c5 = zero_Entry
     \<lparr>ID := ''tag:blogger.com,1999:blog-1.c5'',
      Published := at_time ''2020-01-02T09:30:00.000-08:00'',
      Updated := at_time ''2020-01-02T09:30:00.000-08:00'',
      Title := ''Nice'', Content := ''first'', Tags := [comment_tag],
      Links := [related_to ''http://example.blogspot.com/feeds/42'']\<rparr>"


text \<open>A comment whose parent cannot be found: no \<^verbatim>\<open>related\<close> link, no reply source.\<close>

definition orphan_comment :: Entry where
  "orphan_comment = zero_Entry
     \<lparr>ID := ''tag:blogger.com,1999:blog-1.post-9'', Title := ''Lost'', Tags := [comment_tag]\<rparr>"

section \<open>Notions the statements below use\<close>

text \<open>
  The ID the first loop leaves in an entry: the text after the last \<^verbatim>\<open>post-\<close>, unless
  the entry is skipped as a template or its ID has no such marker.
\<close>

definition normal_ID :: "Entry \<Rightarrow> string" where
  "normal_ID e =
     (if isTemplate (Tags e) then ID e
      else (case LastIndex (ID e) ''post-'' of
              None \<Rightarrow> ID e
            | Some index \<Rightarrow> drop (index + 5) (ID e)))"

text \<open>The entries the first loop enters into the lookup table.\<close>

definition registers :: "Entry \<Rightarrow> bool" where
  "registers e =
     (\<not> isTemplate (Tags e) \<and> LastIndex (ID e) ''post-'' \<noteq> None \<and> snd (ParseUint (normal_ID e)))"

text \<open>An entry without its child list: what the second and third loop leave unchanged.\<close>

definition strip :: "Entry \<Rightarrow> Entry" where
  "strip e = e\<lparr>Children := []\<rparr>"

text \<open>A second comment on the post; its ID has the form the IDs of posts have.\<close>

definition reply77 :: Entry where
  "reply77 = zero_Entry
     \<lparr>ID := ''tag:blogger.com,1999:blog-1.post-77'',
      Published := at_time ''2020-01-03T08:00:00.000-08:00'',
      Updated := at_time ''2020-01-03T08:00:00.000-08:00'',
      Title := ''Re'', Content := ''second'', Tags := [comment_tag],
      Links := [related_to ''http://example.blogspot.com/feeds/42'']\<rparr>"

text \<open>A comment with a parent identifier, and a comment without one.\<close>

definition has_parent :: "Entry \<Rightarrow> bool" where
  "has_parent e = (is_kind kind_comment (Tags e) \<and> parent_of e \<noteq> 0)"

definition orphaned :: "Entry \<Rightarrow> bool" where
  "orphaned e = (is_kind kind_comment (Tags e) \<and> parent_of e = 0)"

text \<open>
  The comment files for the indices \<open>ks\<close> of a table, in that order: one for each comment
  with a parent identifier whose file can be opened. The lines printed for the orphans.
\<close>

definition comment_writes :: "golib \<Rightarrow> string \<Rightarrow> Entry list \<Rightarrow> nat list \<Rightarrow> file_list" where
  "comment_writes L dir es ks =
     List.map_filter (\<lambda>k. if has_parent (es ! k) then writeComment L (es ! k) dir else None) ks"

definition skip_lines :: "Entry list \<Rightarrow> nat list \<Rightarrow> string list" where
  "skip_lines es ks =
     map (\<lambda>k. ''Skipping deleted comment '' @ ID (es ! k)) (filter (\<lambda>k. orphaned (es ! k)) ks)"

text \<open>The path of the file of a comment, from the entry as the feed has it.\<close>

definition comment_path :: "string \<Rightarrow> Entry \<Rightarrow> string" where
  "comment_path dir e = path_Join (path_Join dir ''comments'') (''c'' @ normal_ID e @ ''.toml'')"

text \<open>The child lists of a table as a relation between indices.\<close>

definition edges :: "Entry list \<Rightarrow> (nat \<times> nat) set" where
  "edges es = {(i, j). i < length es \<and> j \<in> set (Children (es ! i))}"

text \<open>The state the second loop of a run starts from.\<close>

definition resolve_out :: "golib \<Rightarrow> Entry list \<Rightarrow> string list" where
  "resolve_out L es = snd (snd (resolve_loop L 0 es Map.empty []))"

definition start :: "golib \<Rightarrow> Entry list \<Rightarrow> world" where
  "start L es = \<lparr>entries = resolved L es, files = [], stdout = resolve_out L es\<rparr>"

text \<open>A comment whose \<^verbatim>\<open>related\<close> link names an identifier no entry has.\<close>

definition dangling :: Entry where
  "dangling = zero_Entry
     \<lparr>ID := ''tag:blogger.com,1999:blog-1.post-78'', Title := ''Where'', Tags := [comment_tag],
      Links := [related_to ''http://example.blogspot.com/feeds/99'']\<rparr>"

text \<open>
  A file written for a post of a run with the flag value \<open>extra\<close>: what \<^verbatim>\<open>writeEntry\<close>
  writes for an entry tagged as a post whose \<^verbatim>\<open>Extra\<close> field holds that value.
\<close>

definition post_file :: "golib \<Rightarrow> string \<Rightarrow> string \<Rightarrow> string \<times> string \<Rightarrow> bool" where
  "post_file L dir extra f =
     (\<exists>e. writeEntry L e dir = Some f \<and> Extra e = extra \<and> is_kind kind_post (Tags e))"

text \<open>What a run leaves behind, whether it ends or aborts.\<close>

definition world_of :: "(abort \<times> world + world \<times> nat \<times> nat) option \<Rightarrow> world option" where
  "world_of r =
     (case r of
        None \<Rightarrow> None
      | Some (Inl (a, w)) \<Rightarrow> Some w
      | Some (Inr (w, c, d)) \<Rightarrow> Some w)"

definition finished :: "(abort \<times> world + world \<times> nat \<times> nat) option \<Rightarrow> bool" where
  "finished r = (case r of Some (Inr x) \<Rightarrow> True | _ \<Rightarrow> False)"

definition paths_written :: "(abort \<times> world + world \<times> nat \<times> nat) option \<Rightarrow> string list" where
  "paths_written r = (case world_of r of None \<Rightarrow> [] | Some w \<Rightarrow> map fst (files w))"

text \<open>The text a path holds after the run: that of the last write to it.\<close>

definition text_written ::
  "(abort \<times> world + world \<times> nat \<times> nat) option \<Rightarrow> string \<Rightarrow> string option" where
  "text_written r p = (case world_of r of None \<Rightarrow> None | Some w \<Rightarrow> map_of (rev (files w)) p)"

definition unlines :: "string list \<Rightarrow> string" where
  "unlines ls = concat (map (\<lambda>l. l @ nl) ls)"

text \<open>
  The file of the post of the scenarios, with the lines of extra metadata between the
  marker field and the author; and the file of the comment.
\<close>

definition post42_text :: "string list \<Rightarrow> string" where
  "post42_text extra_lines =
     unlines ([''---'',
               ''title: '' @ dq @ ''Hello World'' @ dq,
               ''date: 2020-01-01T10:00:00Z'',
               ''updated: 2020-01-01T10:00:00Z'',
               ''blogimport: true '']
              @ extra_lines
              @ [''author: '' @ dq @ dq,
                 ''---'',
                 [],
                 ''<p>text</p>''])"

definition c5_text :: string where
  "c5_text =
     unlines [''---'',
              ''title: '' @ dq @ ''Nice'' @ dq,
              ''date: 2020-01-02T09:30:00Z'',
              ''updated: 2020-01-02T09:30:00Z'',
              ''blogimport: true '',
              ''author: '' @ dq @ dq,
              ''---'',
              [],
              ''first'']"

text \<open>
  A comment whose parent identifier is not zero and is no key of the lookup table; and
  the comments among the indices \<open>ks\<close> whose parent identifier is registered for the
  entry at index \<open>i\<close>: the ones the second loop appends to the child list of \<open>i\<close>.
\<close>

definition unregistered_parent :: "golib \<Rightarrow> Entry list \<Rightarrow> nat \<Rightarrow> bool" where
  "unregistered_parent L es k =
     (has_parent (resolved L es ! k) \<and> postmap_of L es (parent_of (resolved L es ! k)) = None)"

definition attached_to :: "golib \<Rightarrow> Entry list \<Rightarrow> nat \<Rightarrow> nat list \<Rightarrow> nat list" where
  "attached_to L es i ks =
     filter (\<lambda>k. has_parent (resolved L es ! k)
                 \<and> postmap_of L es (parent_of (resolved L es ! k)) = Some i) ks"

text \<open>The names of the tags of the kind scheme, in the order of the feed.\<close>

definition kind_tags :: "Tags \<Rightarrow> string list" where
  "kind_tags ts = map Name (filter (\<lambda>t. Scheme t = kind_scheme) ts)"

text \<open>The text of the file of a comment: the template on the entry with the line breaks
  taken out of its title.\<close>

definition comment_text :: "golib \<Rightarrow> Entry \<Rightarrow> string" where
  "comment_text L e =
     yamlTempl L (e\<lparr>Title := filter (\<lambda>c. c \<noteq> CHR 0x0D) (filter (\<lambda>c. c \<noteq> CHR 0x0A) (Title e))\<rparr>)"

text \<open>
  The two entries of the scenario with a comment. The post has the ID
  \<^verbatim>\<open>tag:blogger.com,1999:blog-1.post-42\<close> and the post kind as its only tag of the kind
  scheme. The comment has the comment kind as its only tag of the kind scheme, an ID that
  ends in \<^verbatim>\<open>.c5\<close>, and links of which at least one has the relation \<^verbatim>\<open>related\<close> (in any
  case of letters) and every such one ends in the path segment \<^verbatim>\<open>42\<close>.
\<close>

definition scenario_post :: "Entry \<Rightarrow> bool" where
  "scenario_post p =
     (ID p = ''tag:blogger.com,1999:blog-1.post-42'' \<and> kind_tags (Tags p) = [kind_post])"

definition scenario_comment :: "golib \<Rightarrow> Entry \<Rightarrow> bool" where
  "scenario_comment L c =
     (kind_tags (Tags c) = [kind_comment] \<and> suffix ''.c5'' (ID c)
      \<and> list_ex (\<lambda>l. ToLower L (Rel l) = ''related'') (Links c)
      \<and> list_all (\<lambda>l. ToLower L (Rel l) \<noteq> ''related'' \<or> path_Base (Link l) = ''42'') (Links c))"

text \<open>The entry the first loop leaves in the table for an entry of the feed.\<close>

definition resolved_entry :: "golib \<Rightarrow> Entry \<Rightarrow> Entry" where
  "resolved_entry L e = fst (resolve_entry L 0 e Map.empty [])"

text \<open>
  What the documentation of \<^verbatim>\<open>sort.Sort\<close> promises, for the comparisons this program
  makes (one key per element, compared by \<open><\<close>): the slice is rearranged, and ends in
  ascending order. It promises no stability.
\<close>

definition sort_contract :: "((nat \<Rightarrow> nat \<Rightarrow> bool) \<Rightarrow> nat list \<Rightarrow> nat list) \<Rightarrow> bool" where
  "sort_contract srt =
     (\<forall>(key :: nat \<Rightarrow> int) xs.
        mset (srt (\<lambda>a b. key a < key b) xs) = mset xs
        \<and> sorted (map key (srt (\<lambda>a b. key a < key b) xs)))"

text \<open>The publication instant of the entry at an index.\<close>

definition pub :: "Entry list \<Rightarrow> nat \<Rightarrow> int" where
  "pub es a = instant (Published (es ! a))"

section \<open>The two equations of the loop of \<^verbatim>\<open>treeSort\<close>\<close>

lemma treeSort_loop_Nil [code]: "treeSort_loop L es [] = Some (Inr (es, []))"
  by (subst treeSort_loop.simps) simp

lemma treeSort_loop_Cons [code]:
  "treeSort_loop L es (v # rest) =
     (case sort_children L es v of
        Inl a \<Rightarrow> Some (Inl a)
      | Inr es1 \<Rightarrow>
          Option.bind (treeSort_loop L es1 (Children (es1 ! v)))
            (\<lambda>r1. case r1 of
               Inl a \<Rightarrow> Some (Inl a)
             | Inr (es2, sub) \<Rightarrow>
                 Option.bind (treeSort_loop L es2 rest)
                   (\<lambda>r2. case r2 of
                      Inl a \<Rightarrow> Some (Inl a)
                    | Inr (es3, later) \<Rightarrow> Some (Inr (es3, v # sub @ later)))))"
  by (subst treeSort_loop.simps) simp


section \<open>How a run can end\<close>

lemma sort_children_abort: "sort_children L es i = Inl a \<Longrightarrow> a = PanicIndex"
  by (auto simp: sort_children_def split: if_splits)

lemma treeSort_loop_abort: "treeSort_loop L es vs = Some r \<Longrightarrow> r = Inl a \<Longrightarrow> a = PanicIndex"
proof (induction arbitrary: a rule: treeSort_loop.raw_induct[rotated 1, consumes 1])
  case (1 loop L es vs r)
  then show ?case
    by (auto split: list.splits sum.splits Option.bind_splits dest: sort_children_abort)
qed

lemma treeSort_abort: "treeSort L es i = Some (Inl a) \<Longrightarrow> a = PanicIndex"
  by (auto simp: treeSort_def split: sum.splits dest: sort_children_abort treeSort_loop_abort)

lemma post_step_abort:
  "post_step L dir extra k st = Some (Inl (a, w)) \<Longrightarrow> a \<noteq> FatalNoEntries"
  by (auto simp: post_step_def Let_def
           split: prod.splits if_splits option.splits sum.splits dest: treeSort_abort)

lemma post_loop_abort:
  "post_loop L dir extra ks st = Some (Inl (a, w)) \<Longrightarrow> a \<noteq> FatalNoEntries"
  by (induction ks arbitrary: st) (auto split: option.splits sum.splits dest: post_step_abort)

lemma build_step_abort: "build_step L dir pm k w = Inl (a, w') \<Longrightarrow> a \<noteq> FatalNoEntries"
  by (auto simp: build_step_def Let_def split: if_splits option.splits)

lemma build_loop_abort: "build_loop L dir pm ks w = Inl (a, w') \<Longrightarrow> a \<noteq> FatalNoEntries"
  by (induction ks arbitrary: w) (auto split: sum.splits dest: build_step_abort)

text \<open>
  Claim C9, as the code has it: a run ends with the fatal error ``No blog entries found!''
  exactly when the parsed feed has no entry at all. Entries that are no posts are entries:
  a feed of comments or templates only passes the check.
\<close>

theorem run_no_entries_iff:
  "(\<exists>w. run L dir extra es = Some (Inl (FatalNoEntries, w))) \<longleftrightarrow> es = []"
  by (auto simp: run_def split: prod.splits sum.splits dest: build_loop_abort post_loop_abort)

theorem run_no_entries_iff_witness:
  "run ascii_lib ''out'' [] [] = Some (Inl (FatalNoEntries, \<lparr>entries = [], files = [], stdout = []\<rparr>))
   \<and> (\<exists>w. run ascii_lib ''out'' [] [] = Some (Inl (FatalNoEntries, w)))"
  using run_no_entries_iff [of ascii_lib "''out''" "[]" "[]"] by (simp add: run_def)

text \<open>
  Claim C9 as stated fails: a feed whose only entry is a comment has no post, and its run
  goes through all three loops and ends with the summary of 0 posts and 0 drafts.
\<close>

theorem run_without_posts_counterexample:
  "run ascii_lib ''out'' [] [orphan_comment] =
     Some (Inr (\<lparr>entries = [orphan_comment\<lparr>ID := ''9''\<rparr>], files = [],
                 stdout = [''Skipping deleted comment 9'']\<rparr>, 0, 0))"
  by code_simp

section \<open>The identifier-resolution pass\<close>

lemma scan_link_fields:
  "ID (scan_link L e l) = ID e" "Tags (scan_link L e l) = Tags e"
  "Children (scan_link L e l) = Children e"
  by (simp_all add: scan_link_def Let_def)

lemma scan_links_fields:
  "ID (foldl (scan_link L) e ls) = ID e \<and> Tags (foldl (scan_link L) e ls) = Tags e
   \<and> Children (foldl (scan_link L) e ls) = Children e"
  by (induction ls arbitrary: e) (simp_all add: scan_link_fields)

lemma resolve_entry_fields:
  assumes "resolve_entry L k e pm out = (e', pm', out')"
  shows "ID e' = normal_ID e" "Tags e' = Tags e" "Children e' = Children e"
    "pm' = (if registers e then pm(fst (ParseUint (normal_ID e)) \<mapsto> k) else pm)"
  using assms
  by (auto simp: resolve_entry_def normal_ID_def registers_def Let_def scan_links_fields
           split: if_splits option.splits prod.splits)

lemma resolve_loop_length:
  "resolve_loop L k es pm out = (es', pm', out') \<Longrightarrow> length es' = length es"
  by (induction es arbitrary: k pm out es' pm' out') (auto split: prod.splits)

lemma resolve_loop_nth:
  "resolve_loop L k es pm out = (es', pm', out') \<Longrightarrow> j < length es \<Longrightarrow>
     ID (es' ! j) = normal_ID (es ! j) \<and> Tags (es' ! j) = Tags (es ! j)
     \<and> Children (es' ! j) = Children (es ! j)"
proof (induction es arbitrary: k pm out es' pm' out' j)
  case Nil
  then show ?case by simp
next
  case (Cons e es)
  then show ?case
    by (cases j) (auto split: prod.splits dest: resolve_entry_fields)
qed

lemma resolve_loop_postmap:
  "resolve_loop L k es pm out = (es', pm', out') \<Longrightarrow> pm' n = Some j \<Longrightarrow>
     pm n = Some j \<or>
     (k \<le> j \<and> j < k + length es \<and> registers (es ! (j - k))
      \<and> ParseUint (normal_ID (es ! (j - k))) = (n, True))"
proof (induction es arbitrary: k pm out es' pm' out')
  case Nil
  then show ?case by simp
next
  case (Cons e es)
  obtain e1 pm1 out1 where r1: "resolve_entry L k e pm out = (e1, pm1, out1)"
    by (cases "resolve_entry L k e pm out") auto
  obtain es2 pm2 out2 where r2: "resolve_loop L (Suc k) es pm1 out1 = (es2, pm2, out2)"
    by (cases "resolve_loop L (Suc k) es pm1 out1") auto
  from Cons.prems r1 r2 have pm': "pm' = pm2" by simp
  from Cons.IH[OF r2] Cons.prems(2) pm'
  consider "pm1 n = Some j"
    | "Suc k \<le> j" "j < Suc k + length es" "registers (es ! (j - Suc k))"
      "ParseUint (normal_ID (es ! (j - Suc k))) = (n, True)"
    by auto
  then show ?case
  proof cases
    case 1
    have "pm1 = (if registers e then pm(fst (ParseUint (normal_ID e)) \<mapsto> k) else pm)"
      using resolve_entry_fields(4)[OF r1] .
    with 1 show ?thesis
      by (auto simp: registers_def split: if_splits prod.splits intro: prod_eqI)
  next
    case 2
    then show ?thesis
      by (auto simp: Suc_diff_le nth_Cons')
  qed
qed

text \<open>
  Claim C2, as the code has it: every index stored in the lookup table is an index of the
  feed whose entry the first loop did not skip as a template (its first tag of the kind
  scheme, if any, names a post or a comment) and whose ID holds the marker \<^verbatim>\<open>post-\<close>
  followed by the decimal key. Comments are entered like posts.
\<close>

theorem postmap_values:
  assumes "postmap_of L es n = Some k"
  shows "k < length es \<and> \<not> isTemplate (Tags (es ! k))
         \<and> LastIndex (ID (es ! k)) ''post-'' \<noteq> None
         \<and> ParseUint (ID (resolved L es ! k)) = (n, True)"
proof -
  obtain es' pm' out' where r: "resolve_loop L 0 es Map.empty [] = (es', pm', out')"
    by (cases "resolve_loop L 0 es Map.empty []") auto
  with assms have "pm' n = Some k" by (simp add: postmap_of_def)
  from resolve_loop_postmap[OF r this]
  have k: "k < length es" "registers (es ! k)" "ParseUint (normal_ID (es ! k)) = (n, True)"
    by auto
  from resolve_loop_nth[OF r k(1)] r have "ID (resolved L es ! k) = normal_ID (es ! k)"
    by (simp add: resolved_def)
  with k show ?thesis by (simp add: registers_def)
qed

theorem postmap_values_witness:
  "postmap_of ascii_lib [post42, reply77] 42 = Some 0
   \<and> 0 < length [post42, reply77] \<and> \<not> isTemplate (Tags ([post42, reply77] ! 0))
   \<and> LastIndex (ID ([post42, reply77] ! 0)) ''post-'' \<noteq> None
   \<and> ParseUint (ID (resolved ascii_lib [post42, reply77] ! 0)) = (42, True)"
proof -
  have h: "postmap_of ascii_lib [post42, reply77] 42 = Some 0" by code_simp
  show ?thesis using h postmap_values [OF h] by simp
qed

text \<open>
  Claim C2 as stated fails: in the feed of a post and a comment whose ID is
  \<^verbatim>\<open>tag:blogger.com,1999:blog-1.post-77\<close>, the table maps 77 to the index of the comment,
  an entry tagged as a comment and not as a post.
\<close>

theorem postmap_holds_comment_counterexample:
  "postmap_of ascii_lib [post42, reply77] 77 = Some 1
   \<and> is_kind kind_comment (Tags ([post42, reply77] ! 1))
   \<and> \<not> is_kind kind_post (Tags ([post42, reply77] ! 1))"
  by code_simp

section \<open>The loop that builds the comment hierarchy\<close>

lemma strip_eq_fields:
  assumes "strip e = strip e'"
  shows "ID e = ID e'" "Published e = Published e'" "Updated e = Updated e'"
    "Draft e = Draft e'" "Title e = Title e'" "Content e = Content e'" "Tags e = Tags e'"
    "EntryAuthor e = EntryAuthor e'" "EntrySource e = EntrySource e'" "Links e = Links e'"
    "ReplyTo e = ReplyTo e'" "Comments e = Comments e'" "Slug e = Slug e'" "Extra e = Extra e'"
proof -
  have f: "f (strip e) = f (strip e')" for f :: "Entry \<Rightarrow> 'b" using assms by simp
  show "ID e = ID e'" using f[of ID] by (simp add: strip_def)
  show "Published e = Published e'" using f[of Published] by (simp add: strip_def)
  show "Updated e = Updated e'" using f[of Updated] by (simp add: strip_def)
  show "Draft e = Draft e'" using f[of Draft] by (simp add: strip_def)
  show "Title e = Title e'" using f[of Title] by (simp add: strip_def)
  show "Content e = Content e'" using f[of Content] by (simp add: strip_def)
  show "Tags e = Tags e'" using f[of Tags] by (simp add: strip_def)
  show "EntryAuthor e = EntryAuthor e'" using f[of EntryAuthor] by (simp add: strip_def)
  show "EntrySource e = EntrySource e'" using f[of EntrySource] by (simp add: strip_def)
  show "Links e = Links e'" using f[of Links] by (simp add: strip_def)
  show "ReplyTo e = ReplyTo e'" using f[of ReplyTo] by (simp add: strip_def)
  show "Comments e = Comments e'" using f[of Comments] by (simp add: strip_def)
  show "Slug e = Slug e'" using f[of Slug] by (simp add: strip_def)
  show "Extra e = Extra e'" using f[of Extra] by (simp add: strip_def)
qed

lemma strip_update [simp]: "strip (e\<lparr>Children := cs\<rparr>) = strip e"
  by (simp add: strip_def)

lemma writeComment_strip:
  assumes "strip e = strip e'"
  shows "writeComment L e dir = writeComment L e' dir"
  unfolding writeComment_def Let_def yamlTempl_def frontmatter_def
  by (simp add: strip_eq_fields[OF assms])

lemma via_strip:
  assumes "map strip es' = map strip es" "k < length es"
  shows "Tags (es' ! k) = Tags (es ! k)" "ID (es' ! k) = ID (es ! k)"
    "parent_of (es' ! k) = parent_of (es ! k)"
    "writeComment L (es' ! k) dir = writeComment L (es ! k) dir"
    "has_parent (es' ! k) = has_parent (es ! k)" "orphaned (es' ! k) = orphaned (es ! k)"
proof -
  from assms have "length es' = length es" by (metis length_map)
  with assms have s: "strip (es' ! k) = strip (es ! k)" by (metis nth_map)
  note f = strip_eq_fields[OF s]
  show "Tags (es' ! k) = Tags (es ! k)" "ID (es' ! k) = ID (es ! k)" using f by simp_all
  show "parent_of (es' ! k) = parent_of (es ! k)" using f by (simp add: parent_of_def)
  show "writeComment L (es' ! k) dir = writeComment L (es ! k) dir"
    using s by (rule writeComment_strip)
  show "has_parent (es' ! k) = has_parent (es ! k)"
    using f by (simp add: has_parent_def parent_of_def)
  show "orphaned (es' ! k) = orphaned (es ! k)"
    using f by (simp add: orphaned_def parent_of_def)
qed

lemma map_strip_update:
  "i < length es \<Longrightarrow> map strip (es[i := (es ! i)\<lparr>Children := cs\<rparr>]) = map strip es"
  by (simp add: map_update list_update_same_conv)

lemma build_step_effect:
  assumes "build_step L dir pm k w = Inr w'"
  shows "map strip (entries w') = map strip (entries w)"
    "files w' = files w @ comment_writes L dir (entries w) [k]"
    "stdout w' = stdout w @ skip_lines (entries w) [k]"
    "j < length (entries w) \<Longrightarrow> set (Children (entries w ! j)) \<subseteq> set (Children (entries w' ! j))"
    "has_parent (entries w ! k) \<Longrightarrow> pm (parent_of (entries w ! k)) = Some i \<Longrightarrow>
       i < length (entries w) \<and> k \<in> set (Children (entries w' ! i))"
  using assms
  by (auto simp: build_step_def Let_def comment_writes_def skip_lines_def has_parent_def
                 orphaned_def map_strip_update nth_list_update
           split: if_splits option.splits)

lemma build_step_panics:
  assumes "has_parent (entries w ! k)" "pm (parent_of (entries w ! k)) = None"
  shows "build_step L dir pm k w = Inl (PanicNotExist k, w)"
  using assms by (simp add: build_step_def has_parent_def)

lemma comment_writes_append:
  "comment_writes L dir es (ks @ ks') = comment_writes L dir es ks @ comment_writes L dir es ks'"
  by (simp add: comment_writes_def List.map_filter_def)

lemma skip_lines_append: "skip_lines es (ks @ ks') = skip_lines es ks @ skip_lines es ks'"
  by (simp add: skip_lines_def)

lemma comment_writes_cong:
  assumes "map strip es' = map strip es" "\<forall>k\<in>set ks. k < length es"
  shows "comment_writes L dir es' ks = comment_writes L dir es ks"
proof -
  have "(if has_parent (es' ! k) then writeComment L (es' ! k) dir else None)
      = (if has_parent (es ! k) then writeComment L (es ! k) dir else None)" if "k \<in> set ks" for k
    using via_strip(4,5)[OF assms(1), of k] assms(2) that by simp
  then show ?thesis
    unfolding comment_writes_def List.map_filter_def by (simp cong: map_cong filter_cong)
qed

lemma skip_lines_cong:
  assumes "map strip es' = map strip es" "\<forall>k\<in>set ks. k < length es"
  shows "skip_lines es' ks = skip_lines es ks"
proof -
  have "orphaned (es' ! k) = orphaned (es ! k) \<and> ID (es' ! k) = ID (es ! k)" if "k \<in> set ks" for k
    using via_strip(2,6)[OF assms(1), of k] assms(2) that by simp
  then show ?thesis
    unfolding skip_lines_def by (simp cong: map_cong filter_cong)
qed

lemma build_loop_effect:
  assumes "build_loop L dir pm ks w = Inr w'" "\<forall>k\<in>set ks. k < length (entries w)"
  shows "map strip (entries w') = map strip (entries w)
         \<and> files w' = files w @ comment_writes L dir (entries w) ks
         \<and> stdout w' = stdout w @ skip_lines (entries w) ks
         \<and> (\<forall>j<length (entries w). set (Children (entries w ! j)) \<subseteq> set (Children (entries w' ! j)))"
  using assms
proof (induction ks arbitrary: w)
  case Nil
  then show ?case by (simp add: comment_writes_def skip_lines_def)
next
  case (Cons k ks)
  from Cons.prems(1) obtain w1 where s: "build_step L dir pm k w = Inr w1"
    and l: "build_loop L dir pm ks w1 = Inr w'"
    by (auto split: sum.splits)
  note e = build_step_effect[OF s]
  have len: "length (entries w1) = length (entries w)" using e(1) by (metis length_map)
  with Cons.prems(2) have r: "\<forall>k\<in>set ks. k < length (entries w1)" by simp
  note ih = Cons.IH[OF l r]
  have c: "comment_writes L dir (entries w1) ks = comment_writes L dir (entries w) ks"
    using comment_writes_cong[OF e(1)] Cons.prems(2) by simp
  have sk: "skip_lines (entries w1) ks = skip_lines (entries w) ks"
    using skip_lines_cong[OF e(1)] Cons.prems(2) by simp
  have "comment_writes L dir (entries w) (k # ks)
          = comment_writes L dir (entries w) [k] @ comment_writes L dir (entries w) ks"
    using comment_writes_append[of L dir "entries w" "[k]" ks] by simp
  moreover have "skip_lines (entries w) (k # ks)
          = skip_lines (entries w) [k] @ skip_lines (entries w) ks"
    using skip_lines_append[of "entries w" "[k]" ks] by simp
  moreover have "\<forall>j<length (entries w). set (Children (entries w ! j)) \<subseteq> set (Children (entries w' ! j))"
    using e(4) ih len by fastforce
  ultimately show ?case using ih e(1,2,3) c sk by simp
qed

lemma build_loop_append:
  "build_loop L dir pm (ks @ ks') w =
     (case build_loop L dir pm ks w of Inl a \<Rightarrow> Inl a | Inr w1 \<Rightarrow> build_loop L dir pm ks' w1)"
  by (induction ks arbitrary: w) (auto split: sum.splits)

lemma build_step_abort_effect:
  assumes "build_step L dir pm k w = Inl (a, w')" "\<forall>n i. pm n = Some i \<longrightarrow> i < length (entries w)"
  shows "a = PanicNotExist k \<and> w' = w"
  using assms
  by (fastforce simp: build_step_def Let_def not_le[symmetric] split: if_splits option.splits)

lemma build_loop_abort_effect:
  assumes "build_loop L dir pm ks w = Inl (a, w')" "\<forall>k\<in>set ks. k < length (entries w)"
    "\<forall>n i. pm n = Some i \<longrightarrow> i < length (entries w)"
  shows "\<exists>ks1 j ks2. ks = ks1 @ j # ks2 \<and> a = PanicNotExist j
           \<and> build_loop L dir pm ks1 w = Inr w'"
  using assms
proof (induction ks arbitrary: w)
  case Nil
  then show ?case by simp
next
  case (Cons k ks)
  show ?case
  proof (cases "build_step L dir pm k w")
    case (Inl b)
    with Cons.prems(1) have "build_step L dir pm k w = Inl (a, w')" by simp
    from build_step_abort_effect[OF this Cons.prems(3)]
    have "k # ks = [] @ k # ks \<and> a = PanicNotExist k \<and> build_loop L dir pm [] w = Inr w'"
      by simp
    then show ?thesis by blast
  next
    case (Inr w1)
    with Cons.prems(1) have l: "build_loop L dir pm ks w1 = Inl (a, w')" by simp
    have len: "length (entries w1) = length (entries w)"
      using build_step_effect(1)[OF Inr] by (metis length_map)
    from Cons.IH[OF l] Cons.prems(2,3) len
    obtain ks1 j ks2 where "ks = ks1 @ j # ks2" "a = PanicNotExist j"
      "build_loop L dir pm ks1 w1 = Inr w'"
      by auto
    with Inr have "k # ks = (k # ks1) @ j # ks2 \<and> a = PanicNotExist j
        \<and> build_loop L dir pm (k # ks1) w = Inr w'"
      by simp
    then show ?thesis by blast
  qed
qed

lemma resolved_length: "length (resolved L es) = length es"
  by (cases "resolve_loop L 0 es Map.empty []") (auto simp: resolved_def dest: resolve_loop_length)

lemma postmap_of_range: "postmap_of L es n = Some i \<Longrightarrow> i < length es"
proof -
  assume a: "postmap_of L es n = Some i"
  obtain es' pm' out' where r: "resolve_loop L 0 es Map.empty [] = (es', pm', out')"
    by (cases "resolve_loop L 0 es Map.empty []") auto
  with a have "pm' n = Some i" by (simp add: postmap_of_def)
  from resolve_loop_postmap[OF r this] show ?thesis by auto
qed

lemma run_unfold:
  "es \<noteq> [] \<Longrightarrow> run L dir extra es =
     (case build_loop L dir (postmap_of L es) [0 ..< length es] (start L es) of
        Inl a \<Rightarrow> Some (Inl a)
      | Inr w \<Rightarrow> post_loop L dir extra [0 ..< length (entries w)] (w, 0, 0))"
  using resolved_length[of L es]
  by (cases "resolve_loop L 0 es Map.empty []")
     (auto simp: run_def postmap_of_def resolved_def resolve_out_def start_def
           split: sum.splits)

lemma upt_split:
  assumes "k < n"
  shows "[0 ..< n] = [0 ..< k] @ k # [Suc k ..< n]"
proof -
  have "[0 ..< n] = [0 ..< k] @ [k ..< n]"
    using upt_add_eq_append[of 0 k "n - k"] assms by simp
  also have "[k ..< n] = k # [Suc k ..< n]"
    using assms by (simp add: upt_conv_Cons)
  finally show ?thesis .
qed

lemma upt_decomp:
  assumes "[0 ..< k] = ks1 @ j # ks2"
  shows "ks1 = [0 ..< j] \<and> j < k"
proof -
  have len: "k = length ks1 + Suc (length ks2)"
    using arg_cong[OF assms, of length] by simp
  then have lt: "length ks1 < k" by simp
  have "[0 ..< k] ! length ks1 = j" using assms by (simp add: nth_append)
  moreover have "[0 ..< k] ! length ks1 = 0 + length ks1"
    using lt by (intro nth_upt) simp
  ultimately have j: "j = length ks1" by simp
  have "take (length ks1) [0 ..< k] = ks1" using assms by simp
  moreover have "take (length ks1) [0 ..< k] = [0 ..< length ks1]"
    using lt by (subst take_upt) simp_all
  ultimately have "ks1 = [0 ..< j]" using j by simp
  with j lt show ?thesis by simp
qed

lemma build_step_children:
  assumes "build_step L dir pm k w = Inr w'" "i < length (entries w)"
  shows "Children (entries w' ! i) =
         Children (entries w ! i)
           @ filter (\<lambda>j. has_parent (entries w ! j) \<and> pm (parent_of (entries w ! j)) = Some i) [k]"
  using assms
  by (auto simp: build_step_def Let_def has_parent_def nth_list_update
           split: if_splits option.splits)

lemma build_loop_children:
  assumes "build_loop L dir pm ks w = Inr w'" "\<forall>k\<in>set ks. k < length (entries w)"
    "i < length (entries w)"
  shows "Children (entries w' ! i) =
         Children (entries w ! i)
           @ filter (\<lambda>j. has_parent (entries w ! j) \<and> pm (parent_of (entries w ! j)) = Some i) ks"
  using assms
proof (induction ks arbitrary: w)
  case Nil
  then show ?case by simp
next
  case (Cons k ks)
  from Cons.prems(1) obtain w1 where s: "build_step L dir pm k w = Inr w1"
    and l: "build_loop L dir pm ks w1 = Inr w'"
    by (auto split: sum.splits)
  have st: "map strip (entries w1) = map strip (entries w)" using build_step_effect(1)[OF s] .
  then have len: "length (entries w1) = length (entries w)" by (metis length_map)
  have same: "(has_parent (entries w1 ! j) \<and> pm (parent_of (entries w1 ! j)) = Some i)
            = (has_parent (entries w ! j) \<and> pm (parent_of (entries w ! j)) = Some i)"
    if "j \<in> set ks" for j
    using via_strip(3,5)[OF st, of j] Cons.prems(2) that by simp
  have "Children (entries w' ! i) =
         Children (entries w1 ! i)
           @ filter (\<lambda>j. has_parent (entries w1 ! j) \<and> pm (parent_of (entries w1 ! j)) = Some i) ks"
    using Cons.IH[OF l] Cons.prems(2,3) len by simp
  also have "filter (\<lambda>j. has_parent (entries w1 ! j) \<and> pm (parent_of (entries w1 ! j)) = Some i) ks
           = filter (\<lambda>j. has_parent (entries w ! j) \<and> pm (parent_of (entries w ! j)) = Some i) ks"
    using same by (simp cong: filter_cong)
  finally show ?case
    using build_step_children[OF s Cons.prems(3)] by simp
qed

lemma build_step_completes:
  assumes "\<forall>n i. pm n = Some i \<longrightarrow> i < length (entries w)"
    "has_parent (entries w ! k) \<longrightarrow> pm (parent_of (entries w ! k)) \<noteq> None"
  shows "\<exists>w'. build_step L dir pm k w = Inr w'"
proof (cases "build_step L dir pm k w")
  case (Inl b)
  obtain a w' where "b = (a, w')" by (cases b)
  with Inl build_step_abort_effect[OF _ assms(1), of L dir k a w']
  have "build_step L dir pm k w = Inl (PanicNotExist k, w)" by simp
  with assms(2) show ?thesis
    by (auto simp: build_step_def Let_def has_parent_def split: if_splits option.splits)
next
  case (Inr w')
  then show ?thesis by blast
qed

lemma build_loop_completes:
  assumes "\<forall>k\<in>set ks. k < length (entries w)"
    "\<forall>n i. pm n = Some i \<longrightarrow> i < length (entries w)"
    "\<forall>k\<in>set ks. has_parent (entries w ! k) \<longrightarrow> pm (parent_of (entries w ! k)) \<noteq> None"
  shows "\<exists>w'. build_loop L dir pm ks w = Inr w'"
  using assms
proof (induction ks arbitrary: w)
  case Nil
  then show ?case by simp
next
  case (Cons k ks)
  from build_step_completes[OF Cons.prems(2), of k L dir] Cons.prems(3)
  obtain w1 where s: "build_step L dir pm k w = Inr w1" by auto
  have st: "map strip (entries w1) = map strip (entries w)" using build_step_effect(1)[OF s] .
  then have len: "length (entries w1) = length (entries w)" by (metis length_map)
  have "\<forall>j\<in>set ks. has_parent (entries w1 ! j) \<longrightarrow> pm (parent_of (entries w1 ! j)) \<noteq> None"
  proof
    fix j assume j: "j \<in> set ks"
    then have "j < length (entries w)" using Cons.prems(1) by simp
    from via_strip(3,5)[OF st this] Cons.prems(3) j
    show "has_parent (entries w1 ! j) \<longrightarrow> pm (parent_of (entries w1 ! j)) \<noteq> None" by simp
  qed
  with Cons.IH[of w1] Cons.prems(1,2) len obtain w' where "build_loop L dir pm ks w1 = Inr w'"
    by auto
  with s show ?case by simp
qed

lemma build_prefix:
  assumes "n \<le> length es" "\<forall>k<n. \<not> unregistered_parent L es k"
  shows "\<exists>w. build_loop L dir (postmap_of L es) [0 ..< n] (start L es) = Inr w
      \<and> map strip (entries w) = map strip (resolved L es)
      \<and> (\<forall>i<length es. Children (entries w ! i)
                          = Children (resolved L es ! i) @ attached_to L es i [0 ..< n])
      \<and> files w = comment_writes L dir (resolved L es) [0 ..< n]
      \<and> stdout w = resolve_out L es @ skip_lines (resolved L es) [0 ..< n]"
proof -
  let ?pm = "postmap_of L es" and ?w0 = "start L es"
  have e0: "entries ?w0 = resolved L es" "files ?w0 = []" "stdout ?w0 = resolve_out L es"
    by (simp_all add: start_def)
  have len0: "length (entries ?w0) = length es" by (simp add: e0 resolved_length)
  have rng: "\<forall>m i. ?pm m = Some i \<longrightarrow> i < length (entries ?w0)"
    using postmap_of_range len0 by metis
  have idx: "\<forall>k\<in>set [0 ..< n]. k < length (entries ?w0)" using assms(1) len0 by simp
  have "\<forall>k\<in>set [0 ..< n]. has_parent (entries ?w0 ! k) \<longrightarrow> ?pm (parent_of (entries ?w0 ! k)) \<noteq> None"
    using assms(2) by (simp add: e0 unregistered_parent_def)
  from build_loop_completes[OF idx rng this]
  obtain w where b: "build_loop L dir ?pm [0 ..< n] ?w0 = Inr w" by blast
  from build_loop_effect[OF b idx]
  have 1: "map strip (entries w) = map strip (resolved L es)"
    "files w = comment_writes L dir (resolved L es) [0 ..< n]"
    "stdout w = resolve_out L es @ skip_lines (resolved L es) [0 ..< n]"
    by (simp_all add: e0)
  have "\<forall>i<length es. Children (entries w ! i)
                          = Children (resolved L es ! i) @ attached_to L es i [0 ..< n]"
    using build_loop_children[OF b idx] len0 by (simp add: e0 attached_to_def)
  with b 1 show ?thesis by blast
qed


text \<open>
  Claim C3, as the code has it. A comment whose parent identifier is not zero and is no
  key of the lookup table stops the run: the second loop panics at the first such comment
  of the feed, index \<open>j\<close>, with ``\<open>j\<close> entry did not exist''. What the run leaves is the
  work of the loop on the entries before \<open>j\<close>: the child lists have gained the comments
  before \<open>j\<close> whose parent is registered (so neither \<open>j\<close> nor a later entry is attached to
  anything), the files are the comment files of the entries before \<open>j\<close>, and no post is
  rendered.
\<close>

theorem missing_parent_panics:
  assumes "k < length es" "unregistered_parent L es k"
  shows "\<exists>j\<le>k. \<exists>w. unregistered_parent L es j \<and> (\<forall>j'<j. \<not> unregistered_parent L es j')
       \<and> run L dir extra es = Some (Inl (PanicNotExist j, w))
       \<and> map strip (entries w) = map strip (resolved L es)
       \<and> (\<forall>i<length es. Children (entries w ! i)
                           = Children (resolved L es ! i) @ attached_to L es i [0 ..< j])
       \<and> files w = comment_writes L dir (resolved L es) [0 ..< j]
       \<and> stdout w = resolve_out L es @ skip_lines (resolved L es) [0 ..< j]"
proof -
  define j where "j = (LEAST j. unregistered_parent L es j)"
  have uj: "unregistered_parent L es j" unfolding j_def using assms(2) by (rule LeastI)
  have jk: "j \<le> k" unfolding j_def using assms(2) by (rule Least_le)
  have first: "\<forall>j'<j. \<not> unregistered_parent L es j'"
    unfolding j_def using not_less_Least by blast
  have jl: "j < length es" using jk assms(1) by simp
  have ne: "es \<noteq> []" using assms(1) by auto
  from build_prefix[of j es L dir] jl first
  obtain w where b: "build_loop L dir (postmap_of L es) [0 ..< j] (start L es) = Inr w"
    and w: "map strip (entries w) = map strip (resolved L es)"
      "\<forall>i<length es. Children (entries w ! i)
                          = Children (resolved L es ! i) @ attached_to L es i [0 ..< j]"
      "files w = comment_writes L dir (resolved L es) [0 ..< j]"
      "stdout w = resolve_out L es @ skip_lines (resolved L es) [0 ..< j]"
    by auto
  have jr: "j < length (resolved L es)" using jl by (simp add: resolved_length)
  have "has_parent (entries w ! j)" "parent_of (entries w ! j) = parent_of (resolved L es ! j)"
    using via_strip(3,5)[OF w(1) jr] uj by (simp_all add: unregistered_parent_def)
  with uj have "build_step L dir (postmap_of L es) j w = Inl (PanicNotExist j, w)"
    by (simp add: build_step_panics unregistered_parent_def)
  then have "run L dir extra es = Some (Inl (PanicNotExist j, w))"
    using b by (simp add: run_unfold[OF ne] upt_split[OF jl] build_loop_append)
  with uj first w jk show ?thesis by blast
qed

theorem missing_parent_panics_witness:
  "2 < length [post42, comment_c5, dangling]
   \<and> unregistered_parent ascii_lib [post42, comment_c5, dangling] 2
   \<and> (\<exists>j\<le>2. \<exists>w. unregistered_parent ascii_lib [post42, comment_c5, dangling] j
          \<and> (\<forall>j'<j. \<not> unregistered_parent ascii_lib [post42, comment_c5, dangling] j')
          \<and> run ascii_lib ''out'' [] [post42, comment_c5, dangling] = Some (Inl (PanicNotExist j, w))
          \<and> map strip (entries w) = map strip (resolved ascii_lib [post42, comment_c5, dangling])
          \<and> (\<forall>i<length [post42, comment_c5, dangling].
                 Children (entries w ! i)
                   = Children (resolved ascii_lib [post42, comment_c5, dangling] ! i)
                     @ attached_to ascii_lib [post42, comment_c5, dangling] i [0 ..< j])
          \<and> files w = comment_writes ascii_lib ''out''
                          (resolved ascii_lib [post42, comment_c5, dangling]) [0 ..< j]
          \<and> stdout w = resolve_out ascii_lib [post42, comment_c5, dangling]
                          @ skip_lines (resolved ascii_lib [post42, comment_c5, dangling]) [0 ..< j])"
proof -
  have h1: "2 < length [post42, comment_c5, dangling]" by simp
  have h2: "unregistered_parent ascii_lib [post42, comment_c5, dangling] 2" by code_simp
  show ?thesis
    using h1 h2 missing_parent_panics [OF h1 h2, of "''out''" "[]"] by blast
qed

text \<open>
  Claim C3 as stated fails: for the feed of a post and a comment whose \<^verbatim>\<open>related\<close> link
  ends in \<^verbatim>\<open>/99\<close>, the run does not go on. It panics at the comment, index 1, before any
  file is written; the post is never rendered.
\<close>

theorem missing_parent_is_fatal_counterexample:
  "run ascii_lib ''out'' [] [post42, dangling] =
     Some (Inl (PanicNotExist 1,
                \<lparr>entries = [post42\<lparr>ID := ''42''\<rparr>, dangling\<lparr>ID := ''78'', ReplyTo := 99\<rparr>],
                 files = [], stdout = []\<rparr>))"
  by code_simp

section \<open>The files of a run\<close>

lemma post_step_effect:
  assumes "post_step L dir extra k (w, c, d) = Some (Inr (w', c', d'))"
  shows "stdout w' = stdout w
         \<and> (\<exists>ps. files w' = files w @ ps \<and> length ps + (c + d) = c' + d'
                 \<and> (\<forall>f\<in>set ps. post_file L dir extra f))"
proof (cases "is_kind kind_post (Tags (entries w ! k))")
  case False
  with assms show ?thesis by (simp add: post_step_def)
next
  case True
  with assms obtain es' flat f where
    f: "writeEntry L ((entries w ! k)\<lparr>Children := flat,
          Comments := Comments (entries w ! k) @ comment_ids es' flat, Extra := extra\<rparr>) dir = Some f"
    and w': "w' = w\<lparr>entries := es', files := files w @ [f]\<rparr>"
    and cd: "c' + d' = Suc (c + d)"
    by (auto simp: post_step_def Let_def split: option.splits sum.splits if_splits)
  let ?e = "(entries w ! k)\<lparr>Children := flat,
          Comments := Comments (entries w ! k) @ comment_ids es' flat, Extra := extra\<rparr>"
  from f True have "writeEntry L ?e dir = Some f \<and> Extra ?e = extra \<and> is_kind kind_post (Tags ?e)"
    by simp
  then have "post_file L dir extra f"
    unfolding post_file_def by (rule exI)
  with w' cd show ?thesis by simp
qed

lemma post_loop_effect:
  assumes "post_loop L dir extra ks (w, c, d) = Some (Inr (w', c', d'))"
  shows "stdout w' = stdout w
         \<and> (\<exists>ps. files w' = files w @ ps \<and> length ps + (c + d) = c' + d'
                 \<and> (\<forall>f\<in>set ps. post_file L dir extra f))"
  using assms
proof (induction ks arbitrary: w c d)
  case Nil
  then show ?case by simp
next
  case (Cons k ks)
  from Cons.prems obtain w1 c1 d1 where
    s: "post_step L dir extra k (w, c, d) = Some (Inr (w1, c1, d1))"
    and l: "post_loop L dir extra ks (w1, c1, d1) = Some (Inr (w', c', d'))"
    by (auto split: option.splits sum.splits)
  from post_step_effect[OF s] obtain ps1 where
    1: "stdout w1 = stdout w" "files w1 = files w @ ps1" "length ps1 + (c + d) = c1 + d1"
       "\<forall>f\<in>set ps1. post_file L dir extra f"
    by blast
  from Cons.IH[OF l] obtain ps2 where
    2: "stdout w' = stdout w1" "files w' = files w1 @ ps2" "length ps2 + (c1 + d1) = c' + d'"
       "\<forall>f\<in>set ps2. post_file L dir extra f"
    by blast
  have "files w' = files w @ (ps1 @ ps2)" "length (ps1 @ ps2) + (c + d) = c' + d'"
    "\<forall>f\<in>set (ps1 @ ps2). post_file L dir extra f"
    using 1 2 by auto
  with 1(1) 2(1) show ?case by metis
qed

lemma run_files:
  assumes "run L dir extra es = Some (Inr (w, c, d))"
  shows "\<exists>ps. files w = comment_writes L dir (resolved L es) [0 ..< length es] @ ps
            \<and> length ps = c + d
            \<and> (\<forall>f\<in>set ps. post_file L dir extra f)
            \<and> stdout w = resolve_out L es @ skip_lines (resolved L es) [0 ..< length es]"
proof -
  have ne: "es \<noteq> []" using assms by (auto simp: run_def)
  from assms obtain w1 where
    b: "build_loop L dir (postmap_of L es) [0 ..< length es] (start L es) = Inr w1"
    and p: "post_loop L dir extra [0 ..< length (entries w1)] (w1, 0, 0) = Some (Inr (w, c, d))"
    by (auto simp: run_unfold[OF ne] split: sum.splits)
  have "\<forall>k\<in>set [0 ..< length es]. k < length (entries (start L es))"
    by (simp add: start_def resolved_length)
  from build_loop_effect[OF b this]
  have 1: "files w1 = comment_writes L dir (resolved L es) [0 ..< length es]"
    "stdout w1 = resolve_out L es @ skip_lines (resolved L es) [0 ..< length es]"
    by (simp_all add: start_def)
  from post_loop_effect[OF p] 1 show ?thesis by auto
qed

lemma writeComment_path:
  "writeComment L e dir = Some f \<Longrightarrow>
     fst f = path_Join (path_Join dir ''comments'') (''c'' @ ID e @ ''.toml'')"
  by (auto simp: writeComment_def Let_def split: if_splits)

lemma writeComment_None:
  "writeComment L e dir = None \<longleftrightarrow>
     \<not> can_open L (path_Join (path_Join dir ''comments'') (''c'' @ ID e @ ''.toml''))"
  by (auto simp: writeComment_def Let_def split: if_splits)

lemma resolved_ID: "k < length es \<Longrightarrow> ID (resolved L es ! k) = normal_ID (es ! k)"
  by (cases "resolve_loop L 0 es Map.empty []") (auto simp: resolved_def dest: resolve_loop_nth)

lemma comment_writes_paths:
  assumes "\<forall>k\<in>set ks. k < length es"
  shows "map fst (comment_writes L dir (resolved L es) ks) =
         map (\<lambda>k. comment_path dir (es ! k))
             (filter (\<lambda>k. has_parent (resolved L es ! k) \<and> can_open L (comment_path dir (es ! k))) ks)"
  using assms
proof (induction ks)
  case Nil
  then show ?case by (simp add: comment_writes_def)
next
  case (Cons k ks)
  then have k: "k < length es" by simp
  have ih: "map fst (comment_writes L dir (resolved L es) ks) =
         map (\<lambda>k. comment_path dir (es ! k))
             (filter (\<lambda>k. has_parent (resolved L es ! k) \<and> can_open L (comment_path dir (es ! k))) ks)"
    using Cons by simp
  have p: "path_Join (path_Join dir ''comments'') (''c'' @ ID (resolved L es ! k) @ ''.toml'')
             = comment_path dir (es ! k)"
    by (simp add: comment_path_def resolved_ID[OF k])
  show ?case
  proof (cases "has_parent (resolved L es ! k)")
    case False
    then show ?thesis using ih by (simp add: comment_writes_def)
  next
    case True
    show ?thesis
    proof (cases "writeComment L (resolved L es ! k) dir")
      case None
      with True ih p show ?thesis
        using writeComment_None[of L "resolved L es ! k" dir] by (simp add: comment_writes_def)
    next
      case (Some f)
      then have "can_open L (comment_path dir (es ! k))"
        using writeComment_None[of L "resolved L es ! k" dir] p by simp
      with True ih Some writeComment_path[OF Some] p show ?thesis
        by (simp add: comment_writes_def)
    qed
  qed
qed

lemma sublist_Extra: "sublist (Extra e) (frontmatter L e)"
proof (cases "Extra e = []")
  case True
  then show ?thesis by simp
next
  case False
  let ?a = "''---'' @ nl
     @ ''title: '' @ dq @ Title e @ dq @ nl
     @ ''date: '' @ Date_String (Published e) @ nl
     @ ''updated: '' @ Date_String (Updated e)
     @ (if TomlString L (Tags e) \<noteq> [] then nl @ ''tags: ['' @ TomlString L (Tags e) @ '']'' else [])
     @ (if Draft e then nl @ ''draft: true'' else [])
     @ nl @ ''blogimport: true '' @ nl"
  let ?b = "nl @ ''author: '' @ dq @ AuthorName (EntryAuthor e) @ dq @ nl @ ''---'' @ nl"
  have "frontmatter L e = ?a @ Extra e @ ?b"
    using False unfolding frontmatter_def by simp
  then show ?thesis by (metis sublist_appendI)
qed

section \<open>The scenarios, run\<close>

lemma scenario_run:
  "run ascii_lib ''out'' [] [post42, comment_c5] =
     Some (Inr (\<lparr>entries = [post42\<lparr>ID := ''42'', Children := [1]\<rparr>, comment_c5\<lparr>ReplyTo := 42\<rparr>],
                 files = [(''out/comments/ctag:blogger.com,1999:blog-1.c5.toml'', c5_text),
                          (''out/2020-01-01-hello-world.md'', post42_text [])],
                 stdout = []\<rparr>, 1, 0))"
  by code_simp

lemma scenario_run_extra:
  "run ascii_lib ''out'' ''x: 1'' [post42, comment_c5] =
     Some (Inr (\<lparr>entries = [post42\<lparr>ID := ''42'', Children := [1]\<rparr>, comment_c5\<lparr>ReplyTo := 42\<rparr>],
                 files = [(''out/comments/ctag:blogger.com,1999:blog-1.c5.toml'', c5_text),
                          (''out/2020-01-01-hello-world.md'', post42_text [''x: 1''])],
                 stdout = []\<rparr>, 1, 0))"
  by code_simp


lemma scenario_run_reply:
  "run ascii_lib ''out'' [] [post42, reply77] =
     Some (Inr (\<lparr>entries = [post42\<lparr>ID := ''42'', Children := [1]\<rparr>,
                            reply77\<lparr>ID := ''77'', ReplyTo := 42\<rparr>],
                 files = [(''out/comments/c77.toml'',
                           unlines [''---'', ''title: '' @ dq @ ''Re'' @ dq,
                                    ''date: 2020-01-03T08:00:00Z'', ''updated: 2020-01-03T08:00:00Z'',
                                    ''blogimport: true '', ''author: '' @ dq @ dq, ''---'', [],
                                    ''second'']),
                          (''out/2020-01-01-hello-world.md'', post42_text [])],
                 stdout = []\<rparr>, 1, 0))"
  by code_simp

lemma scenario_run_post:
  "run ascii_lib ''out'' [] [post42] =
     Some (Inr (\<lparr>entries = [post42\<lparr>ID := ''42''\<rparr>],
                 files = [(''out/2020-01-01-hello-world.md'', post42_text [])],
                 stdout = []\<rparr>, 1, 0))"
  by code_simp


section \<open>What is rendered, and where\<close>

lemma finishedE:
  assumes "finished r"
  obtains w c d where "r = Some (Inr (w, c, d))"
  using assms by (auto simp: finished_def split: option.splits sum.splits)









text \<open>
  Claim C7, as the code has it. The path of a comment file is the target directory joined
  with \<^verbatim>\<open>comments\<close> and with \<^verbatim>\<open>c\<close>, the ID and \<^verbatim>\<open>.toml\<close>, where the ID is the one the first
  loop left in the entry: for an entry that is no template and whose ID in the feed holds
  \<^verbatim>\<open>post-\<close>, the text after the last \<^verbatim>\<open>post-\<close>; the ID of the feed otherwise.
\<close>

theorem comment_file_paths:
  assumes "run L dir extra es = Some (Inr (w, c, d))"
  shows "\<exists>ps. map fst (files w) =
              map (\<lambda>k. comment_path dir (es ! k))
                  (filter (\<lambda>k. has_parent (resolved L es ! k) \<and> can_open L (comment_path dir (es ! k)))
                          [0 ..< length es])
              @ map fst ps
            \<and> (\<forall>f\<in>set ps. post_file L dir extra f)"
proof -
  from run_files[OF assms] obtain ps where
    ps: "files w = comment_writes L dir (resolved L es) [0 ..< length es] @ ps"
        "\<forall>f\<in>set ps. post_file L dir extra f"
    by blast
  have "\<forall>k\<in>set [0 ..< length es]. k < length es" by simp
  from comment_writes_paths[OF this, of L dir] ps show ?thesis by auto
qed

theorem comment_file_paths_witness:
  "finished (run ascii_lib ''out'' [] [post42, reply77])
   \<and> (\<exists>w c d ps. run ascii_lib ''out'' [] [post42, reply77] = Some (Inr (w, c, d))
         \<and> map fst (files w) =
              map (\<lambda>k. comment_path ''out'' ([post42, reply77] ! k))
                  (filter (\<lambda>k. has_parent (resolved ascii_lib [post42, reply77] ! k)
                               \<and> can_open ascii_lib (comment_path ''out'' ([post42, reply77] ! k)))
                          [0 ..< length [post42, reply77]])
              @ map fst ps
         \<and> (\<forall>f\<in>set ps. post_file ascii_lib ''out'' [] f))"
proof -
  have f: "finished (run ascii_lib ''out'' [] [post42, reply77])"
    by (simp add: scenario_run_reply finished_def)
  then obtain w c d where r: "run ascii_lib ''out'' [] [post42, reply77] = Some (Inr (w, c, d))"
    by (rule finishedE)
  from comment_file_paths [OF r] f r show ?thesis by blast
qed

text \<open>
  Claim C7 as stated fails: the comment with the ID \<^verbatim>\<open>tag:blogger.com,1999:blog-1.post-77\<close>
  is written to \<^verbatim>\<open>out/comments/c77.toml\<close>.
\<close>

theorem comment_path_not_raw_counterexample:
  "ID reply77 = ''tag:blogger.com,1999:blog-1.post-77''
   \<and> paths_written (run ascii_lib ''out'' [] [post42, reply77])
       = [''out/comments/c77.toml'', ''out/2020-01-01-hello-world.md'']"
proof -
  have "ID reply77 = ''tag:blogger.com,1999:blog-1.post-77''" by code_simp
  then show ?thesis
    by (simp add: scenario_run_reply paths_written_def world_of_def)
qed

text \<open>
  Claim C8, as the code has it. In a run that reaches its end every file of a post, one
  for each post counted in the summary, has the value of the flag as it is in its
  frontmatter. The files of the comments come before them and are written from the
  entries of the table alone: the flag does not reach them.
\<close>

theorem extra_in_every_post_file:
  assumes "run L dir extra es = Some (Inr (w, c, d))"
  shows "\<exists>ps. files w = comment_writes L dir (resolved L es) [0 ..< length es] @ ps
            \<and> length ps = c + d
            \<and> (\<forall>f\<in>set ps. \<exists>e. writeEntry L e dir = Some f \<and> is_kind kind_post (Tags e)
                               \<and> sublist extra (frontmatter L e))"
proof -
  from run_files[OF assms] obtain ps where
    ps: "files w = comment_writes L dir (resolved L es) [0 ..< length es] @ ps"
        "length ps = c + d" "\<forall>f\<in>set ps. post_file L dir extra f"
    by blast
  have "\<exists>e. writeEntry L e dir = Some f \<and> is_kind kind_post (Tags e) \<and> sublist extra (frontmatter L e)"
    if "f \<in> set ps" for f
  proof -
    from ps(3) that obtain e where
      "writeEntry L e dir = Some f" "Extra e = extra" "is_kind kind_post (Tags e)"
      unfolding post_file_def by blast
    with sublist_Extra[of e L] show ?thesis by blast
  qed
  with ps(1,2) show ?thesis by blast
qed

theorem extra_in_every_post_file_witness:
  "finished (run ascii_lib ''out'' ''x: 1'' [post42, comment_c5])
   \<and> (\<exists>w c d ps. run ascii_lib ''out'' ''x: 1'' [post42, comment_c5] = Some (Inr (w, c, d))
         \<and> files w = comment_writes ascii_lib ''out'' (resolved ascii_lib [post42, comment_c5])
                        [0 ..< length [post42, comment_c5]] @ ps
         \<and> length ps = c + d
         \<and> (\<forall>f\<in>set ps. \<exists>e. writeEntry ascii_lib e ''out'' = Some f \<and> is_kind kind_post (Tags e)
                            \<and> sublist ''x: 1'' (frontmatter ascii_lib e)))"
proof -
  have f: "finished (run ascii_lib ''out'' ''x: 1'' [post42, comment_c5])"
    by (simp add: scenario_run_extra finished_def)
  then obtain w c d where r: "run ascii_lib ''out'' ''x: 1'' [post42, comment_c5] = Some (Inr (w, c, d))"
    by (rule finishedE)
  from extra_in_every_post_file [OF r] f r show ?thesis by blast
qed

text \<open>
  Claim C8 as stated fails: with the flag value \<^verbatim>\<open>x: 1\<close> the file of the comment of the
  scenario is the text without it.
\<close>

theorem extra_not_in_comment_file_counterexample:
  "text_written (run ascii_lib ''out'' ''x: 1'' [post42, comment_c5])
       ''out/comments/ctag:blogger.com,1999:blog-1.c5.toml'' = Some c5_text
   \<and> \<not> sublist ''x: 1'' c5_text"
proof -
  have "\<not> sublist ''x: 1'' c5_text" by code_simp
  then show ?thesis
    by (simp add: scenario_run_extra text_written_def world_of_def)
qed

lemma isTemplate_kind_tags:
  "isTemplate ts = (case kind_tags ts of [] \<Rightarrow> False | n # _ \<Rightarrow> n \<noteq> kind_comment \<and> n \<noteq> kind_post)"
  by (induction ts) (auto simp: kind_tags_def)

lemma is_kind_kind_tags: "is_kind nm ts = (nm \<in> set (kind_tags ts))"
  by (auto simp: is_kind_def kind_tags_def list_ex_iff)

lemma kinds_differ: "kind_comment \<noteq> kind_post"
  by (simp add: kind_comment_def kind_post_def)

lemma LastIndex_Some:
  assumes "LastIndex s sep = Some i"
  shows "i + length sep \<le> length s" "take (length sep) (drop i s) = sep"
proof -
  from assms have len: "length sep \<le> length s"
    by (auto simp: LastIndex_def split: if_splits)
  from assms obtain rest where
    "filter (\<lambda>i. take (length sep) (drop i s) = sep) (rev [0 ..< Suc (length s - length sep)]) = i # rest"
    by (auto simp: LastIndex_def split: if_splits list.splits)
  then have "i \<in> set (filter (\<lambda>i. take (length sep) (drop i s) = sep)
                        (rev [0 ..< Suc (length s - length sep)]))"
    by (metis list.set_intros(1))
  then have "take (length sep) (drop i s) = sep \<and> i < Suc (length s - length sep)"
    unfolding set_filter set_rev set_upt by simp
  with len show "i + length sep \<le> length s" "take (length sep) (drop i s) = sep" by auto
qed

lemma post_marker_not_in_c5:
  assumes "LastIndex (pre @ ''.c5'') ''post-'' = Some i"
  shows "i + 5 \<le> length pre"
proof (rule ccontr)
  assume "\<not> i + 5 \<le> length pre"
  then have hi: "length pre < i + 5" by simp
  let ?S = "pre @ ''.c5''"
  have l5: "length ''post-'' = 5" by simp
  from LastIndex_Some[OF assms] have b: "i + 5 \<le> length ?S"
    and t: "take 5 (drop i ?S) = ''post-''" unfolding l5 by blast+
  let ?m = "length pre - i"
  have b': "i + 5 \<le> length pre + 3" using b by simp
  have m: "?m < 5" "i + ?m = length pre" "2 \<le> ?m" using hi b' by auto
  have "''post-'' ! ?m = take 5 (drop i ?S) ! ?m" using t by simp
  also have "\<dots> = drop i ?S ! ?m" using m(1) by (rule nth_take)
  also have "\<dots> = ?S ! (i + ?m)" using b by (intro nth_drop) simp
  also have "\<dots> = ?S ! length pre" using m(2) by simp
  also have "\<dots> = CHR ''.''" by (simp add: nth_append)
  finally have c: "''post-'' ! ?m = CHR ''.''" .
  have "?m = 2 \<or> ?m = 3 \<or> ?m = 4" using m by auto
  with c show False by auto
qed

lemma normal_ID_c5:
  assumes "suffix ''.c5'' (ID c)"
  shows "suffix ''.c5'' (normal_ID c)"
proof -
  from assms obtain pre where pre: "ID c = pre @ ''.c5''" by (auto simp: suffix_def)
  show ?thesis
  proof (cases "LastIndex (ID c) ''post-''")
    case None
    then show ?thesis using assms by (simp add: normal_ID_def)
  next
    case (Some i)
    from post_marker_not_in_c5[OF Some[unfolded pre]] have "i + 5 \<le> length pre" .
    then have "drop (i + 5) (ID c) = drop (i + 5) pre @ ''.c5''" by (simp add: pre)
    then show ?thesis using assms Some by (simp add: normal_ID_def suffix_def)
  qed
qed

lemma ParseUint_c5: "suffix ''.c5'' s \<Longrightarrow> ParseUint s = (0, False)"
proof -
  assume "suffix ''.c5'' s"
  then obtain pre where "s = pre @ ''.c5''" by (auto simp: suffix_def)
  moreover have "\<not> is_digit (CHR ''.'')" by (simp add: is_digit_def)
  ultimately show ?thesis by (simp add: ParseUint_def)
qed

lemma normal_ID_post42:
  "ID p = ''tag:blogger.com,1999:blog-1.post-42'' \<Longrightarrow> \<not> isTemplate (Tags p) \<Longrightarrow> normal_ID p = ''42''"
proof -
  have "LastIndex ''tag:blogger.com,1999:blog-1.post-42'' ''post-'' = Some 28" by code_simp
  then show "ID p = ''tag:blogger.com,1999:blog-1.post-42'' \<Longrightarrow> \<not> isTemplate (Tags p) \<Longrightarrow> normal_ID p = ''42''"
    by (simp add: normal_ID_def)
qed

lemma ParseUint_42: "ParseUint ''42'' = (42, True)"
  by code_simp

lemma resolve_entry_fst: "fst (resolve_entry L k e pm out) = resolved_entry L e"
  by (simp add: resolve_entry_def resolved_entry_def Let_def split: option.splits prod.splits)

lemma resolve_loop_map:
  "fst (resolve_loop L k es pm out) = map (resolved_entry L) es"
proof (induction es arbitrary: k pm out)
  case Nil
  then show ?case by simp
next
  case (Cons e es)
  obtain e1 pm1 out1 where r1: "resolve_entry L k e pm out = (e1, pm1, out1)"
    by (cases "resolve_entry L k e pm out") auto
  then have "e1 = resolved_entry L e" using resolve_entry_fst[of L k e pm out] by simp
  with r1 Cons.IH[of "Suc k" pm1 out1] show ?case by (auto split: prod.splits)
qed

lemma resolved_map: "resolved L es = map (resolved_entry L) es"
  by (simp add: resolved_def resolve_loop_map)

lemma scan_link_shape:
  "\<exists>r s. scan_link L e l = e\<lparr>ReplyTo := r, Slug := s\<rparr>"
proof -
  have "e = e\<lparr>ReplyTo := ReplyTo e, Slug := Slug e\<rparr>" by simp
  moreover have "e\<lparr>ReplyTo := r\<rparr> = e\<lparr>ReplyTo := r, Slug := Slug e\<rparr>" for r by simp
  moreover have "e\<lparr>Slug := s\<rparr> = e\<lparr>ReplyTo := ReplyTo e, Slug := s\<rparr>" for s by simp
  ultimately show ?thesis unfolding scan_link_def Let_def by (metis (full_types))
qed

lemma scan_links_shape:
  "\<exists>r s. foldl (scan_link L) e ls = e\<lparr>ReplyTo := r, Slug := s\<rparr>"
proof (induction ls rule: rev_induct)
  case Nil
  have "e = e\<lparr>ReplyTo := ReplyTo e, Slug := Slug e\<rparr>" by simp
  then show ?case by (metis foldl_Nil)
next
  case (snoc l ls)
  then obtain r s where 1: "foldl (scan_link L) e ls = e\<lparr>ReplyTo := r, Slug := s\<rparr>" by blast
  from scan_link_shape[of L "e\<lparr>ReplyTo := r, Slug := s\<rparr>" l]
  obtain r' s' where "scan_link L (e\<lparr>ReplyTo := r, Slug := s\<rparr>) l = e\<lparr>ReplyTo := r', Slug := s'\<rparr>"
    by auto
  with 1 show ?case by (metis foldl_append foldl_Cons foldl_Nil)
qed

lemma scan_links_ReplyTo:
  assumes "list_ex (\<lambda>l. ToLower L (Rel l) = ''related'') ls"
    "list_all (\<lambda>l. ToLower L (Rel l) \<noteq> ''related'' \<or> path_Base (Link l) = b) ls"
  shows "ReplyTo (foldl (scan_link L) e ls) = fst (ParseUint b)"
  using assms
proof (induction ls rule: rev_induct)
  case Nil
  then show ?case by simp
next
  case (snoc l ls)
  show ?case
  proof (cases "ToLower L (Rel l) = ''related''")
    case True
    with snoc.prems(2) show ?thesis by (simp add: scan_link_def)
  next
    case False
    with snoc.prems have "list_ex (\<lambda>l. ToLower L (Rel l) = ''related'') ls"
      "list_all (\<lambda>l. ToLower L (Rel l) \<noteq> ''related'' \<or> path_Base (Link l) = b) ls"
      by simp_all
    from snoc.IH[OF this] False show ?thesis by (simp add: scan_link_def Let_def)
  qed
qed

lemma resolved_entry_eq:
  "resolved_entry L e =
     (if isTemplate (Tags e) then e else foldl (scan_link L) (e\<lparr>ID := normal_ID e\<rparr>) (Links e))"
  by (auto simp: resolved_entry_def resolve_entry_def normal_ID_def Let_def split: option.splits)

lemma resolved_entry_shape:
  "\<exists>r s. resolved_entry L e = e\<lparr>ID := normal_ID e, ReplyTo := r, Slug := s\<rparr>"
proof (cases "isTemplate (Tags e)")
  case True
  then have "resolved_entry L e = e\<lparr>ID := normal_ID e, ReplyTo := ReplyTo e, Slug := Slug e\<rparr>"
    by (simp add: resolved_entry_eq normal_ID_def)
  then show ?thesis by blast
next
  case False
  with scan_links_shape[of L "e\<lparr>ID := normal_ID e\<rparr>" "Links e"] show ?thesis
    by (simp add: resolved_entry_eq)
qed

lemma frontmatter_shape [simp]:
  "frontmatter L (e\<lparr>ID := i, ReplyTo := r, Slug := s\<rparr>) = frontmatter L e"
  unfolding frontmatter_def by simp

lemma strip_render:
  assumes "strip e' = strip e"
  shows "writeEntry L (e'\<lparr>Children := flat, Comments := cs, Extra := x\<rparr>) dir
       = writeEntry L (e\<lparr>Extra := x\<rparr>) dir"
  unfolding writeEntry_def Let_def yamlTempl_def frontmatter_def
  using strip_eq_fields[OF assms] by simp

lemma Less_pub: "Less es = (\<lambda>a b. pub es a < pub es b)"
  by (intro ext) (simp add: Less_def Before_def pub_def)

lemma sort_contract_Less:
  assumes "sort_contract (sortSort L)"
  shows "mset (sortSort L (Less es) xs) = mset xs"
    "sorted (map (pub es) (sortSort L (Less es) xs))"
  using assms unfolding sort_contract_def Less_pub by blast+

lemma sort_small:
  assumes "sort_contract (sortSort L)"
  shows "sortSort L (Less es) [] = []" "sortSort L (Less es) [x] = [x]"
proof -
  show "sortSort L (Less es) [] = []"
    using sort_contract_Less(1)[OF assms, of es "[]"] by simp
  have "mset (sortSort L (Less es) [x]) = {#x#}"
    using sort_contract_Less(1)[OF assms, of es "[x]"] by simp
  then show "sortSort L (Less es) [x] = [x]" by (metis mset_single_iff_right mset.simps(2) mset_zero_iff)
qed

lemma Children_same [simp]: "e\<lparr>Children := Children e\<rparr> = e"
  by simp

lemma treeSort_one_leaf:
  assumes "sort_contract (sortSort L)" "Children e0 = [1]" "Children e1 = []"
  shows "treeSort L [e0, e1] 0 = Some (Inr ([e0, e1], [1]))"
proof -
  let ?es = "[e0, e1]"
  have s0: "sort_children L ?es 0 = Inr ?es"
    using assms(2) sort_small(2)[OF assms(1), of ?es 1]
    by (simp add: sort_children_def)
  have s1: "sort_children L ?es 1 = Inr ?es"
    using assms(3) sort_small(1)[OF assms(1), of ?es]
    by (simp add: sort_children_def)
  have "treeSort_loop L ?es [1] = Some (Inr (?es, [1]))"
    using s1 assms(3) by (simp add: treeSort_loop_Cons treeSort_loop_Nil)
  with s0 assms(2) show ?thesis by (simp add: treeSort_def)
qed

lemma upt_2: "[0 ..< 2] = [0, 1]"
  by (simp add: upt_rec)

lemma postmap_two:
  "postmap_of L [a, b] =
     (let pm1 = (if registers a then [fst (ParseUint (normal_ID a)) \<mapsto> 0] else Map.empty)
      in if registers b then pm1(fst (ParseUint (normal_ID b)) \<mapsto> 1) else pm1)"
proof -
  obtain a1 pm1 out1 where r1: "resolve_entry L 0 a Map.empty [] = (a1, pm1, out1)"
    by (cases "resolve_entry L 0 a Map.empty []") auto
  obtain b1 pm2 out2 where r2: "resolve_entry L (Suc 0) b pm1 out1 = (b1, pm2, out2)"
    by (cases "resolve_entry L (Suc 0) b pm1 out1") auto
  from resolve_entry_fields(4)[OF r1] resolve_entry_fields(4)[OF r2] r1 r2
  show ?thesis by (simp add: postmap_of_def Let_def)
qed

lemma writeComment_eq:
  "writeComment L e dir =
     (if can_open L (path_Join (path_Join dir ''comments'') (''c'' @ ID e @ ''.toml''))
      then Some (path_Join (path_Join dir ''comments'') (''c'' @ ID e @ ''.toml''), comment_text L e)
      else None)"
  by (simp add: writeComment_def comment_text_def Let_def)

lemma comment_text_shape:
  "comment_text L (e\<lparr>ID := i, ReplyTo := r, Slug := s\<rparr>) = comment_text L e"
  unfolding comment_text_def yamlTempl_def frontmatter_def by simp

lemma writeEntry_shape:
  "writeEntry L (e\<lparr>ID := i, ReplyTo := r, Slug := s, Extra := x\<rparr>) dir
     = writeEntry L (e\<lparr>Extra := x\<rparr>) dir"
  unfolding writeEntry_def Let_def yamlTempl_def frontmatter_def by simp

lemma length_2E:
  assumes "length xs = 2"
  obtains a b where "xs = [a, b]"
proof (cases xs)
  case Nil
  with assms show ?thesis by simp
next
  case (Cons a ys)
  show ?thesis
  proof (cases ys)
    case Nil
    with Cons assms show ?thesis by simp
  next
    case (Cons b zs)
    with \<open>xs = a # ys\<close> assms have "zs = []" by simp
    with Cons \<open>xs = a # ys\<close> that show ?thesis by simp
  qed
qed


text \<open>
  Claim C5, as the code has it. For every feed of a post and a comment as in the scenario
  (see \<open>scenario_post\<close> and \<open>scenario_comment\<close>): the second loop runs to its end; it
  appends the index of the comment to the child list of the post and leaves that of the
  comment as it is; it writes one file, if that can be opened, under \<^verbatim>\<open>comments\<close>, named
  \<^verbatim>\<open>c\<close>, the ID of the comment from its last \<^verbatim>\<open>post-\<close> on (all of it when it has none) and
  \<^verbatim>\<open>.toml\<close>. The file of the post is the one the post has without the comment, whatever
  the flattening returns and whichever identifiers are collected: the template that is
  executed reads neither the child list nor the comment list, so no line of comments is
  written. When the sort keeps its contract and the feed gives the two entries no child
  lists, the run ends with the post counted, or aborts if the file of the post cannot be
  opened.
\<close>

theorem scenario_comment_attached_and_written:
  assumes "scenario_post p" "scenario_comment L c"
  shows "\<exists>w. build_loop L dir (postmap_of L [p, c]) [0 ..< 2] (start L [p, c]) = Inr w
     \<and> run L dir extra [p, c] = post_loop L dir extra [0 ..< 2] (w, 0, 0)
     \<and> map Children (entries w) = [Children p @ [1], Children c]
     \<and> files w = (if can_open L (comment_path dir c)
                    then [(comment_path dir c, comment_text L c)] else [])
     \<and> (\<forall>flat cs. writeEntry L ((entries w ! 0)\<lparr>Children := flat, Comments := cs, Extra := extra\<rparr>) dir
                    = writeEntry L (p\<lparr>Extra := extra\<rparr>) dir)
     \<and> (sort_contract (sortSort L) \<and> Children p = [] \<and> Children c = [] \<longrightarrow>
           run L dir extra [p, c] =
             (case writeEntry L (p\<lparr>Extra := extra\<rparr>) dir of
                None \<Rightarrow> Some (Inl (FatalWrite (Title p), w))
              | Some f \<Rightarrow> Some (Inr (w\<lparr>files := files w @ [f]\<rparr>,
                                      if Draft p then 0 else 1, if Draft p then 1 else 0))))"
proof -
  let ?es = "[p, c]"
  let ?p' = "resolved_entry L p" and ?c' = "resolved_entry L c"
  have kp: "kind_tags (Tags p) = [kind_post]" and idp: "ID p = ''tag:blogger.com,1999:blog-1.post-42''"
    using assms(1) by (simp_all add: scenario_post_def)
  have kc: "kind_tags (Tags c) = [kind_comment]" and idc: "suffix ''.c5'' (ID c)"
    and lk: "list_ex (\<lambda>l. ToLower L (Rel l) = ''related'') (Links c)"
      "list_all (\<lambda>l. ToLower L (Rel l) \<noteq> ''related'' \<or> path_Base (Link l) = ''42'') (Links c)"
    using assms(2) by (simp_all add: scenario_comment_def)
  have tp: "\<not> isTemplate (Tags p)" "is_kind kind_post (Tags p)" "\<not> is_kind kind_comment (Tags p)"
    using kp kinds_differ by (simp_all add: isTemplate_kind_tags is_kind_kind_tags)
  have tc: "\<not> isTemplate (Tags c)" "is_kind kind_comment (Tags c)" "\<not> is_kind kind_post (Tags c)"
    using kc kinds_differ by (simp_all add: isTemplate_kind_tags is_kind_kind_tags)
  have nip: "normal_ID p = ''42''" using normal_ID_post42[OF idp tp(1)] .
  have regp: "registers p"
  proof -
    have "LastIndex ''tag:blogger.com,1999:blog-1.post-42'' ''post-'' = Some 28" by code_simp
    then show ?thesis using tp(1) idp nip by (simp add: registers_def ParseUint_42)
  qed
  have regc: "\<not> registers c"
    using ParseUint_c5[OF normal_ID_c5[OF idc]] by (simp add: registers_def)
  have pm: "postmap_of L ?es = [42 \<mapsto> 0]"
    using regp regc nip by (simp add: postmap_two ParseUint_42)
  obtain rp sp where p': "?p' = p\<lparr>ID := ''42'', ReplyTo := rp, Slug := sp\<rparr>"
    using resolved_entry_shape[of L p] nip by auto
  obtain rc sc where c'0: "?c' = c\<lparr>ID := normal_ID c, ReplyTo := rc, Slug := sc\<rparr>"
    using resolved_entry_shape[of L c] by auto
  have "ReplyTo ?c' = 42"
    using scan_links_ReplyTo[OF lk, of "c\<lparr>ID := normal_ID c\<rparr>"] tc(1)
    by (simp add: resolved_entry_eq ParseUint_42)
  with c'0 have c': "?c' = c\<lparr>ID := normal_ID c, ReplyTo := 42, Slug := sc\<rparr>" by simp
  have res: "resolved L ?es = [?p', ?c']" by (simp add: resolved_map)
  have hp: "\<not> has_parent ?p'" "has_parent ?c'" "parent_of ?c' = 42"
    using tp tc by (simp_all add: p' c' has_parent_def parent_of_def)
  have un: "\<forall>k<2. \<not> unregistered_parent L ?es k"
  proof (intro allI impI)
    fix k :: nat assume "k < 2"
    then have "k = 0 \<or> k = 1" by auto
    then show "\<not> unregistered_parent L ?es k"
      using hp pm by (auto simp: unregistered_parent_def res)
  qed
  have att: "attached_to L ?es 0 [0, 1] = [1]" "attached_to L ?es 1 [0, 1] = []"
    using hp pm by (simp_all add: attached_to_def res)
  from build_prefix[of 2 ?es L dir] un
  obtain w where b: "build_loop L dir (postmap_of L ?es) [0 ..< 2] (start L ?es) = Inr w"
    and w: "map strip (entries w) = map strip (resolved L ?es)"
      "\<forall>i<length ?es. Children (entries w ! i)
                          = Children (resolved L ?es ! i) @ attached_to L ?es i [0 ..< 2]"
      "files w = comment_writes L dir (resolved L ?es) [0 ..< 2]"
    by auto
  have "length (entries w) = length (resolved L ?es)" using w(1) by (metis length_map)
  then have len: "length (entries w) = 2" by (simp add: res)
  then obtain e0 e1 where es: "entries w = [e0, e1]" by (rule length_2E)
  have l2: "length ?es = 2" by simp
  have "run L dir extra ?es =
     (case build_loop L dir (postmap_of L ?es) [0 ..< length ?es] (start L ?es) of
        Inl a \<Rightarrow> Some (Inl a)
      | Inr w \<Rightarrow> post_loop L dir extra [0 ..< length (entries w)] (w, 0, 0))"
    by (rule run_unfold) simp
  then have run: "run L dir extra ?es = post_loop L dir extra [0 ..< 2] (w, 0, 0)"
    unfolding l2 by (simp only: b len sum.case)
  have "Children (entries w ! 0) = Children (resolved L ?es ! 0) @ attached_to L ?es 0 [0 ..< 2]"
    using w(2) by simp
  then have ch0: "Children e0 = Children p @ [1]"
    using att(1) by (simp add: res upt_2 p' es)
  have "Children (entries w ! 1) = Children (resolved L ?es ! 1) @ attached_to L ?es 1 [0 ..< 2]"
    using w(2) by simp
  then have ch1: "Children e1 = Children c"
    using att(2) by (simp add: res upt_2 c' es)
  have ch: "map Children (entries w) = [Children p @ [1], Children c]"
    using ch0 ch1 es by simp
  have st0: "strip e0 = strip ?p'" and st1: "strip e1 = strip ?c'"
    using w(1) by (simp_all add: res es)
  have fs: "files w = (if can_open L (comment_path dir c)
                    then [(comment_path dir c, comment_text L c)] else [])"
    using w(3) hp
    by (simp add: res upt_2 comment_writes_def writeComment_eq comment_path_def
                  c' comment_text_shape)
  have wr: "writeEntry L ((entries w ! 0)\<lparr>Children := flat, Comments := cs, Extra := extra\<rparr>) dir
          = writeEntry L (p\<lparr>Extra := extra\<rparr>) dir" for flat cs
    using strip_render[OF st0, where L = L and flat = flat and cs = cs and x = extra and dir = dir] by (simp add: p' writeEntry_shape es)
  have full: "run L dir extra ?es =
             (case writeEntry L (p\<lparr>Extra := extra\<rparr>) dir of
                None \<Rightarrow> Some (Inl (FatalWrite (Title p), w))
              | Some f \<Rightarrow> Some (Inr (w\<lparr>files := files w @ [f]\<rparr>,
                                      if Draft p then 0 else 1, if Draft p then 1 else 0)))"
    if sc: "sort_contract (sortSort L)" and e: "Children p = []" "Children c = []"
  proof -
    have c0: "Children e0 = [1]" "Children e1 = []" using ch0 ch1 e by simp_all
    have f0: "Tags e0 = Tags p" "Title e0 = Title p" "Draft e0 = Draft p"
      using strip_eq_fields[OF st0] by (simp_all add: p')
    have f1: "Tags e1 = Tags c" "ID e1 = normal_ID c"
      using strip_eq_fields[OF st1] by (simp_all add: c')
    have ts: "treeSort L (entries w) 0 = Some (Inr (entries w, [1]))"
      unfolding es using treeSort_one_leaf[OF sc c0] .
    have ci: "comment_ids (entries w) [1] = []"
      using ParseUint_c5[OF normal_ID_c5[OF idc]] f1 es by (simp add: comment_ids_def)
    have w_same: "w\<lparr>entries := entries w\<rparr> = w" by simp
    have s0: "post_step L dir extra 0 (w, 0, 0) =
               (case writeEntry L (p\<lparr>Extra := extra\<rparr>) dir of
                  None \<Rightarrow> Some (Inl (FatalWrite (Title p), w))
                | Some f \<Rightarrow> Some (Inr (w\<lparr>files := files w @ [f]\<rparr>,
                                      if Draft p then 0 else Suc 0, if Draft p then Suc 0 else 0)))"
      using tp(2) f0 ts ci wr es
      by (simp add: post_step_def Let_def split: option.splits)
    have s1: "post_step L dir extra 1 (w', n, m) = Some (Inr (w', n, m))"
      if "entries w' = entries w" for w' n m
      using tc(3) f1 es that by (simp add: post_step_def Let_def)
    show ?thesis
      unfolding run upt_2
      using s0 s1 by (auto split: option.splits)
  qed
  have full': "sort_contract (sortSort L) \<and> Children p = [] \<and> Children c = [] \<longrightarrow>
           run L dir extra [p, c] =
             (case writeEntry L (p\<lparr>Extra := extra\<rparr>) dir of
                None \<Rightarrow> Some (Inl (FatalWrite (Title p), w))
              | Some f \<Rightarrow> Some (Inr (w\<lparr>files := files w @ [f]\<rparr>,
                                      if Draft p then 0 else 1, if Draft p then 1 else 0)))"
    using full by blast
  show ?thesis
    by (intro exI[of _ w] conjI allI) (rule b run ch fs wr full')+
qed

theorem scenario_comment_attached_and_written_witness:
  "scenario_post post42 \<and> scenario_comment ascii_lib comment_c5
   \<and> (\<exists>w. build_loop ascii_lib ''out'' (postmap_of ascii_lib [post42, comment_c5]) [0 ..< 2]
              (start ascii_lib [post42, comment_c5]) = Inr w
         \<and> run ascii_lib ''out'' [] [post42, comment_c5] = post_loop ascii_lib ''out'' [] [0 ..< 2] (w, 0, 0)
         \<and> map Children (entries w) = [Children post42 @ [1], Children comment_c5]
         \<and> files w = (if can_open ascii_lib (comment_path ''out'' comment_c5)
                        then [(comment_path ''out'' comment_c5, comment_text ascii_lib comment_c5)]
                        else []))"
proof -
  have h1: "scenario_post post42" by code_simp
  have "suffix ''.c5'' (ID comment_c5)"
    by (simp add: comment_c5_def suffix_def)
  moreover have "kind_tags (Tags comment_c5) = [kind_comment]
      \<and> list_ex (\<lambda>l. ToLower ascii_lib (Rel l) = ''related'') (Links comment_c5)
      \<and> list_all (\<lambda>l. ToLower ascii_lib (Rel l) \<noteq> ''related'' \<or> path_Base (Link l) = ''42'')
           (Links comment_c5)"
    by code_simp
  ultimately have h2: "scenario_comment ascii_lib comment_c5"
    by (simp add: scenario_comment_def)
  from scenario_comment_attached_and_written [OF h1 h2, of "''out''" "[]"]
  obtain w where w: "build_loop ascii_lib ''out'' (postmap_of ascii_lib [post42, comment_c5]) [0 ..< 2]
              (start ascii_lib [post42, comment_c5]) = Inr w
     \<and> run ascii_lib ''out'' [] [post42, comment_c5] = post_loop ascii_lib ''out'' [] [0 ..< 2] (w, 0, 0)
     \<and> map Children (entries w) = [Children post42 @ [1], Children comment_c5]
     \<and> files w = (if can_open ascii_lib (comment_path ''out'' comment_c5)
                    then [(comment_path ''out'' comment_c5, comment_text ascii_lib comment_c5)] else [])
     \<and> (\<forall>flat cs. writeEntry ascii_lib ((entries w ! 0)\<lparr>Children := flat, Comments := cs, Extra := []\<rparr>) ''out''
                    = writeEntry ascii_lib (post42\<lparr>Extra := []\<rparr>) ''out'')
     \<and> (sort_contract (sortSort ascii_lib) \<and> Children post42 = [] \<and> Children comment_c5 = [] \<longrightarrow>
           run ascii_lib ''out'' [] [post42, comment_c5] =
             (case writeEntry ascii_lib (post42\<lparr>Extra := []\<rparr>) ''out'' of
                None \<Rightarrow> Some (Inl (FatalWrite (Title post42), w))
              | Some f \<Rightarrow> Some (Inr (w\<lparr>files := files w @ [f]\<rparr>,
                                      if Draft post42 then 0 else 1, if Draft post42 then 1 else 0))))"
    ..
  show ?thesis
    by (intro conjI exI[of _ w])
       (rule h1 h2 w[THEN conjunct1] w[THEN conjunct2, THEN conjunct1]
             w[THEN conjunct2, THEN conjunct2, THEN conjunct1]
             w[THEN conjunct2, THEN conjunct2, THEN conjunct2, THEN conjunct1])+
qed

text \<open>
  Claim C5 as stated fails: the file of the post does not hold the line
  \<^verbatim>\<open>comments = [ 5 ]\<close>.
\<close>

theorem no_comments_line_counterexample:
  "text_written (run ascii_lib ''out'' [] [post42, comment_c5]) ''out/2020-01-01-hello-world.md''
     = Some (post42_text [])
   \<and> \<not> sublist ''comments = [ 5 ]'' (post42_text [])"
proof -
  have "\<not> sublist ''comments = [ 5 ]'' (post42_text [])" by code_simp
  then show ?thesis
    by (simp add: scenario_run text_written_def world_of_def)
qed

lemma date_prefix: "take 10 (Date_String (at_time ''2020-01-01T10:00:00.000-08:00'')) = ''2020-01-01''"
  by code_simp

text \<open>
  Claim C6, as the code has it. The frontmatter of an entry has the line \<^verbatim>\<open>date: \<close>
  followed by the timestamp as \<^verbatim>\<open>Date.String\<close> formats it; for a post published at
  \<^verbatim>\<open>2020-01-01T10:00:00.000-08:00\<close> the name \<^verbatim>\<open>makePath\<close> gives starts with \<^verbatim>\<open>2020-01-01-\<close>,
  and the run over the post of the scenario writes \<^verbatim>\<open>out/2020-01-01-hello-world.md\<close>.
\<close>

theorem post_date_line_and_file_name:
  "prefix ''2020-01-01-'' (makePath L (at_time ''2020-01-01T10:00:00.000-08:00'') title)
   \<and> sublist (nl @ ''date: '' @ Date_String (Published e) @ nl) (frontmatter L e)
   \<and> paths_written (run ascii_lib ''out'' [] [post42]) = [''out/2020-01-01-hello-world.md'']"
proof -
  have "prefix ''2020-01-01-'' (makePath L (at_time ''2020-01-01T10:00:00.000-08:00'') title)"
    unfolding makePath_def date_prefix by simp
  moreover have "sublist (nl @ ''date: '' @ Date_String (Published e) @ nl) (frontmatter L e)"
  proof -
    let ?a = "''---'' @ nl @ ''title: '' @ dq @ Title e @ dq"
    let ?b = "''updated: '' @ Date_String (Updated e)
     @ (if TomlString L (Tags e) \<noteq> [] then nl @ ''tags: ['' @ TomlString L (Tags e) @ '']'' else [])
     @ (if Draft e then nl @ ''draft: true'' else [])
     @ nl @ ''blogimport: true ''
     @ (if Extra e \<noteq> [] then nl @ Extra e else [])
     @ nl @ ''author: '' @ dq @ AuthorName (EntryAuthor e) @ dq @ nl
     @ ''---'' @ nl"
    have "frontmatter L e = ?a @ (nl @ ''date: '' @ Date_String (Published e) @ nl) @ ?b"
      unfolding frontmatter_def by simp
    then show ?thesis by (metis sublist_appendI)
  qed
  moreover have "paths_written (run ascii_lib ''out'' [] [post42]) = [''out/2020-01-01-hello-world.md'']"
    by (simp add: scenario_run_post paths_written_def world_of_def)
  ultimately show ?thesis by simp
qed

theorem post_date_line_and_file_name_witness:
  "prefix ''2020-01-01-'' (makePath ascii_lib (at_time ''2020-01-01T10:00:00.000-08:00'') ''Hello World'')
   \<and> sublist (nl @ ''date: '' @ Date_String (Published post42) @ nl) (frontmatter ascii_lib post42)"
  using post_date_line_and_file_name [where L = ascii_lib and title = "''Hello World''" and e = post42]
  by simp

text \<open>
  Claim C6 as stated fails: the file of the post published at
  \<^verbatim>\<open>2020-01-01T10:00:00.000-08:00\<close> has the line \<^verbatim>\<open>date: 2020-01-01T10:00:00Z\<close>, the reading
  of the clock in the zone of the feed, and the text \<^verbatim>\<open>2020-01-01T18:00:00Z\<close> nowhere.
\<close>

theorem date_not_utc_counterexample:
  "Published post42 = at_time ''2020-01-01T10:00:00.000-08:00''
   \<and> text_written (run ascii_lib ''out'' [] [post42]) ''out/2020-01-01-hello-world.md''
       = Some (post42_text [])
   \<and> \<not> sublist ''date = 2020-01-01T18:00:00Z'' (post42_text [])
   \<and> \<not> sublist ''2020-01-01T18:00:00Z'' (post42_text [])"
proof -
  have "Published post42 = at_time ''2020-01-01T10:00:00.000-08:00''"
    by (simp add: post42_def)
  moreover have "\<not> sublist ''date = 2020-01-01T18:00:00Z'' (post42_text [])" by code_simp
  moreover have "\<not> sublist ''2020-01-01T18:00:00Z'' (post42_text [])" by code_simp
  ultimately show ?thesis
    by (simp add: scenario_run_post text_written_def world_of_def)
qed

end
